theory Spec2Isabelle
  imports Complex_Main "HOL-Library.Word"
begin

unbundle bit_operations_syntax

chapter \<open>The model\<close>

section \<open>C++ integer arithmetic\<close>

text \<open>
  Signed division and remainder of C++ truncate towards zero, whereas \<open>div\<close> and
  \<open>mod\<close> of HOL round towards minus infinity.  The two operators below are the
  ones the source's \<open>/\<close> and \<open>%\<close> are translated to.
\<close>

definition c_div :: "int \<Rightarrow> int \<Rightarrow> int" where
  "c_div a b = sgn a * sgn b * (\<bar>a\<bar> div \<bar>b\<bar>)"

definition c_rem :: "int \<Rightarrow> int \<Rightarrow> int" where
  "c_rem a b = a - b * c_div a b"

text \<open>\<open>is_even\<close> of filled_path.cpp: \<open>(v % 2) == 0\<close>.\<close>

definition is_even :: "int \<Rightarrow> bool" where
  "is_even v = (c_rem v 2 = 0)"

section \<open>SubContourPoint: boundary flags, corners and boundary progress\<close>

type_synonym uint32 = "32 word"

definition on_min_x_boundary :: uint32 where "on_min_x_boundary = 1"
definition on_max_x_boundary :: uint32 where "on_max_x_boundary = 2"
definition on_x_boundary :: uint32 where
  "on_x_boundary = on_min_x_boundary OR on_max_x_boundary"
definition on_min_y_boundary :: uint32 where "on_min_y_boundary = 4"
definition on_max_y_boundary :: uint32 where "on_max_y_boundary = 8"
definition on_y_boundary :: uint32 where
  "on_y_boundary = on_min_y_boundary OR on_max_y_boundary"

text \<open>
  The enumeration \<open>corner_t\<close>; the order of the constructors is the order of the
  enumerators, which the source uses for arithmetic in \<open>next_corner\<close>.
\<close>

datatype corner_t =
  corner_minx_miny | corner_minx_maxy | corner_maxx_maxy | corner_maxx_miny | not_corner

fun corner_value :: "corner_t \<Rightarrow> nat" where
  "corner_value corner_minx_miny = 0"
| "corner_value corner_minx_maxy = 1"
| "corner_value corner_maxx_maxy = 2"
| "corner_value corner_maxx_miny = 3"
| "corner_value not_corner = 4"

definition corner_of_value :: "nat \<Rightarrow> corner_t" where
  "corner_of_value n =
     (if n = 0 then corner_minx_miny
      else if n = 1 then corner_minx_maxy
      else if n = 2 then corner_maxx_maxy
      else if n = 3 then corner_maxx_miny
      else not_corner)"

definition good_boundary_bits :: "uint32 \<Rightarrow> bool" where
  "good_boundary_bits b \<longleftrightarrow>
     (on_x_boundary AND b) \<noteq> on_x_boundary \<and> (on_y_boundary AND b) \<noteq> on_y_boundary"

definition corner :: "uint32 \<Rightarrow> corner_t" where
  "corner b =
     (let v = b AND 15 in
      if v = (on_min_x_boundary OR on_min_y_boundary) then corner_minx_miny
      else if v = (on_min_x_boundary OR on_max_y_boundary) then corner_minx_maxy
      else if v = (on_max_x_boundary OR on_min_y_boundary) then corner_maxx_miny
      else if v = (on_max_x_boundary OR on_max_y_boundary) then corner_maxx_maxy
      else not_corner)"

text \<open>\<open>next_corner\<close>: \<open>(c + 1) % not_corner\<close> on the enumerators' values.\<close>

definition next_corner :: "corner_t \<Rightarrow> corner_t" where
  "next_corner c = corner_of_value ((corner_value c + 1) mod corner_value not_corner)"

definition boundary_progress :: "uint32 \<Rightarrow> uint32 \<Rightarrow> int" where
  "boundary_progress b0 b1 =
     (let c0 = corner b0; c1 = corner b1 in
      if c0 = not_corner \<or> c1 = not_corner then 0
      else if c0 = next_corner c1 then - 1
      else if c1 = next_corner c0 then 1
      else 0)"

section \<open>PointHoard: contours of vertex indices\<close>

text \<open>
  \<open>PointHoard::ContourPoint\<close>.  A vertex is an index into the point tables of the
  hoard; it is modelled as a natural number (the tables never hold \<open>2 ^ 32\<close> points).
\<close>

record ContourPoint =
  m_vertex :: nat
  m_flags :: uint32

type_synonym Contour = "ContourPoint list"

subsection \<open>\<open>PointHoard::reduce_contour\<close>\<close>

text \<open>
  The loop of \<open>reduce_contour\<close> over the points of the contour, with the loop
  variables \<open>prev\<close> and \<open>bcount\<close>.  \<open>None\<close> is the early \<open>return 0\<close> taken at the
  first step whose boundary progress is zero; \<open>Some bcount\<close> is the value of \<open>bcount\<close>
  when the loop runs to its end.
\<close>

fun reduce_loop :: "uint32 \<Rightarrow> int \<Rightarrow> Contour \<Rightarrow> int option" where
  "reduce_loop prev bcount [] = Some bcount"
| "reduce_loop prev bcount (q # qs) =
     (let r = boundary_progress prev (m_flags q) in
      if r = 0 then None else reduce_loop (m_flags q) (bcount + r) qs)"

text \<open>
  \<open>reduce_contour\<close> changes the contour in place and returns an \<open>int\<close>; the model
  returns the contour after the call together with the returned value.
\<close>

definition reduce_contour :: "Contour \<Rightarrow> Contour \<times> int" where
  "reduce_contour C =
     (if length C \<le> 2 then ([], 0)
      else (case reduce_loop (m_flags (last C)) 0 C of
              None \<Rightarrow> (C, 0)
            | Some bcount \<Rightarrow> ([], c_div (- bcount) 4)))"

text \<open>
  The loop of \<open>add_contour_to_path\<close> over the unlooped contours: the value of
  \<open>reduce_contour\<close> is added to \<open>w\<close>, and a contour that is not empty afterwards is
  appended to the path.
\<close>

fun add_reduced :: "Contour list \<Rightarrow> int \<Rightarrow> Contour list \<Rightarrow> int \<times> Contour list" where
  "add_reduced [] w path_output = (w, path_output)"
| "add_reduced (v # vs) w path_output =
     (let (v', r) = reduce_contour v in
      add_reduced vs (w + r) (if v' \<noteq> [] then path_output @ [v'] else path_output))"


text \<open>The list of the values of \<open>r\<close> that the loop of \<open>reduce_contour\<close> computes.\<close>

fun steps :: "uint32 \<Rightarrow> Contour \<Rightarrow> int list" where
  "steps prev [] = []"
| "steps prev (q # qs) = boundary_progress prev (m_flags q) # steps (m_flags q) qs"




section \<open>SubPath: splitting a contour against a line\<close>

text \<open>
  \<open>dvec2\<close> is a pair of doubles.  Doubles are modelled as real numbers: the
  comparisons of \<open>split_contour\<close> are exact on doubles, and the rounding of the
  interpolation in \<open>compute_spit_point\<close> changes only the free coordinate of the
  crossing point, never which points are emitted or their flags.  \<open>vec_get\<close> is
  \<open>operator[]\<close>; an index is 0 or 1 in every call (it is the splitting coordinate
  that \<open>choose_splitting_coordinate\<close> returns, or one minus it).
\<close>

type_synonym dvec2 = "real \<times> real"

definition vec_get :: "dvec2 \<Rightarrow> int \<Rightarrow> real" where
  "vec_get p c = (if c = 0 then fst p else snd p)"

definition vec_set :: "dvec2 \<Rightarrow> int \<Rightarrow> real \<Rightarrow> dvec2" where
  "vec_set p c v = (if c = 0 then (v, snd p) else (fst p, v))"

text \<open>\<open>SubContourPoint\<close>: a \<open>dvec2\<close> with the boundary flags \<open>m_flags\<close>, read by \<open>flags()\<close>.\<close>

record SubContourPoint =
  position :: dvec2
  flags :: uint32

type_synonym SubContour = "SubContourPoint list"

definition compute_spit_point :: "dvec2 \<Rightarrow> dvec2 \<Rightarrow> int \<Rightarrow> real \<Rightarrow> dvec2" where
  "compute_spit_point a b splitting_coordinate splitting_value =
     (let n = splitting_value - vec_get a splitting_coordinate;
          d = vec_get b splitting_coordinate - vec_get a splitting_coordinate;
          t = n / d;
          aa = vec_get a (1 - splitting_coordinate);
          bb = vec_get b (1 - splitting_coordinate)
      in vec_set (vec_set (0, 0) splitting_coordinate splitting_value)
           (1 - splitting_coordinate) ((1 - t) * aa + t * bb))"

text \<open>
  The body of the loop of \<open>split_contour\<close> for the previous point \<open>prev_pt\<close> and the
  point \<open>pt\<close>; it appends to the two output contours \<open>C0\<close> and \<open>C1\<close>.
\<close>

definition split_step ::
  "int \<Rightarrow> real \<Rightarrow> SubContourPoint \<Rightarrow> SubContourPoint \<Rightarrow> SubContour \<times> SubContour
     \<Rightarrow> SubContour \<times> SubContour" where
  "split_step splitting_coordinate splitting_value prev_pt pt acc =
     (let C0 = fst acc; C1 = snd acc;
          prev_b0 = (vec_get (position prev_pt) splitting_coordinate \<le> splitting_value);
          b0 = (vec_get (position pt) splitting_coordinate \<le> splitting_value);
          prev_b1 = (vec_get (position prev_pt) splitting_coordinate \<ge> splitting_value);
          b1 = (vec_get (position pt) splitting_coordinate \<ge> splitting_value);
          split_pt = compute_spit_point (position prev_pt) (position pt)
                       splitting_coordinate splitting_value;
          C0 = (if prev_b0 \<noteq> b0
                then (let new_flag = (if splitting_coordinate = 0
                                      then on_max_x_boundary else on_max_y_boundary);
                          remove_flag = (if splitting_coordinate = 0
                                         then on_min_x_boundary else on_min_y_boundary);
                          flags = new_flag OR (NOT remove_flag AND flags pt AND flags prev_pt)
                      in C0 @ [\<lparr>position = split_pt, flags = flags\<rparr>])
                else C0);
          C0 = (if b0 then C0 @ [pt] else C0);
          C1 = (if prev_b1 \<noteq> b1
                then (let new_flag = (if splitting_coordinate = 0
                                      then on_min_x_boundary else on_min_y_boundary);
                          remove_flag = (if splitting_coordinate = 0
                                         then on_max_x_boundary else on_max_y_boundary);
                          flags = new_flag OR (NOT remove_flag AND flags pt AND flags prev_pt)
                      in C1 @ [\<lparr>position = split_pt, flags = flags\<rparr>])
                else C1);
          C1 = (if b1 then C1 @ [pt] else C1)
      in (C0, C1))"

fun split_loop ::
  "int \<Rightarrow> real \<Rightarrow> SubContourPoint \<Rightarrow> SubContour \<Rightarrow> SubContour \<times> SubContour
     \<Rightarrow> SubContour \<times> SubContour" where
  "split_loop c s prev_pt [] acc = acc"
| "split_loop c s prev_pt (pt # pts) acc = split_loop c s pt pts (split_step c s prev_pt pt acc)"

text \<open>
  \<open>split_contour\<close> starts with \<open>prev_pt = src.back()\<close>.  Every contour of a SubPath is
  non-empty (its constructor asserts it), so \<open>src\<close> is never empty in a call.
\<close>

definition split_contour ::
  "SubContour \<Rightarrow> int \<Rightarrow> real \<Rightarrow> SubContour \<times> SubContour \<Rightarrow> SubContour \<times> SubContour" where
  "split_contour src splitting_coordinate splitting_value acc =
     split_loop splitting_coordinate splitting_value (last src) src acc"

text \<open>The point before \<open>src ! i\<close> in the cyclic order of the contour.\<close>

definition cyc_pred :: "'a list \<Rightarrow> nat \<Rightarrow> 'a" where
  "cyc_pred src i = src ! ((i + length src - 1) mod length src)"

text \<open>
  The flags that name the lower and the upper boundary of the box along the splitting
  coordinate, and the crossing point with the flags inherited from both end points:
  the new flag, and every flag other than \<open>remove_flag\<close> that both end points carry.
\<close>

definition min_flag :: "int \<Rightarrow> uint32" where
  "min_flag c = (if c = 0 then on_min_x_boundary else on_min_y_boundary)"

definition max_flag :: "int \<Rightarrow> uint32" where
  "max_flag c = (if c = 0 then on_max_x_boundary else on_max_y_boundary)"

definition crossing_point ::
  "SubContourPoint \<Rightarrow> SubContourPoint \<Rightarrow> int \<Rightarrow> real \<Rightarrow> uint32 \<Rightarrow> uint32 \<Rightarrow> SubContourPoint" where
  "crossing_point prev_pt pt c s new_flag remove_flag =
     \<lparr>position = compute_spit_point (position prev_pt) (position pt) c s,
      flags = new_flag OR (flags prev_pt AND flags pt AND NOT remove_flag)\<rparr>"

text \<open>
  The flags that claim C1 as written gives a crossing point: the new flag, and every
  flag other than \<open>remove_flag\<close> that one of the end points carries.
\<close>

definition union_flags :: "SubContourPoint \<Rightarrow> SubContourPoint \<Rightarrow> uint32 \<Rightarrow> uint32 \<Rightarrow> uint32" where
  "union_flags prev_pt pt new_flag remove_flag =
     new_flag OR ((flags prev_pt OR flags pt) AND NOT remove_flag)"

text \<open>
  An edge from the corner \<open>(0, 0)\<close> of the box (on \<open>min_x\<close> and \<open>min_y\<close>) to an
  interior point; it is split at \<open>x = 1\<close>.
\<close>

definition corner_pt :: SubContourPoint where
  "corner_pt = \<lparr>position = (0, 0), flags = 5\<rparr>"

definition inner_pt :: SubContourPoint where
  "inner_pt = \<lparr>position = (2, 1), flags = 0\<rparr>"

definition edge_contour :: SubContour where
  "edge_contour = [corner_pt, inner_pt]"


subsection \<open>\<open>PointHoard::unloop_contour\<close>\<close>

text \<open>
  The contour \<open>C\<close> is a \<open>std::list\<close> walked by the iterators \<open>i\<close> and \<open>j\<close>.  The model
  keeps the list in three pieces: the elements in front of \<open>i\<close>, the elements of \<open>[i, j)\<close>
  (called \<open>seg\<close>; its head is the element \<open>i\<close> points to) and the elements from \<open>j\<close>
  on (called \<open>rest\<close>).

  The inner loop, entered with \<open>j\<close> at its current position.  When the vertex at \<open>j\<close>
  is the one looked for, \<open>[i, j)\<close> is pushed to \<open>output\<close> and erased from the list,
  which leaves \<open>i = j\<close>; the loop then goes on with \<open>++j\<close> and the same \<open>looking_for\<close>.
  The result is the list from \<open>i\<close> to the end when the loop is left, and the output.
\<close>

fun unloop_inner ::
  "nat \<Rightarrow> Contour \<Rightarrow> Contour \<Rightarrow> Contour list \<Rightarrow> Contour \<times> Contour list" where
  "unloop_inner looking_for seg [] output = (seg, output)"
| "unloop_inner looking_for seg (x # xs) output =
     (if looking_for = m_vertex x
      then unloop_inner looking_for [x] xs (output @ [seg])
      else unloop_inner looking_for (seg @ [x]) xs output)"

lemma length_unloop_inner:
  "length (fst (unloop_inner v seg rest out)) \<le> length seg + length rest"
proof (induction rest arbitrary: seg out)
  case Nil
  show ?case by simp
next
  case (Cons x xs)
  show ?case
  proof (cases "v = m_vertex x")
    case True
    with Cons [of "[x]" "out @ [seg]"] show ?thesis by simp
  next
    case False
    with Cons [of "seg @ [x]" out] show ?thesis by simp
  qed
qed

lemma unloop_inner_nonempty:
  "seg \<noteq> [] \<Longrightarrow> fst (unloop_inner v seg rest out) \<noteq> []"
  by (induction rest arbitrary: seg out) auto

lemma length_tl_unloop_inner:
  "length (tl (fst (unloop_inner v [x] xs out))) < Suc (length xs)"
proof -
  have "length (fst (unloop_inner v [x] xs out)) \<le> Suc (length xs)"
    using length_unloop_inner [of v "[x]" xs out] by simp
  moreover have "fst (unloop_inner v [x] xs out) \<noteq> []"
    by (rule unloop_inner_nonempty) simp
  ultimately show ?thesis
    by (cases "fst (unloop_inner v [x] xs out)") auto
qed

text \<open>
  The outer loop: \<open>passed\<close> holds the elements the iterator \<open>i\<close> has gone past,
  \<open>cur\<close> the list from \<open>i\<close> on.  After the inner loop, \<open>++i\<close> moves the head of
  what is left to \<open>passed\<close>.
\<close>

function unloop_outer ::
  "Contour \<Rightarrow> Contour \<Rightarrow> Contour list \<Rightarrow> Contour \<times> Contour list" where
  "unloop_outer passed [] output = (passed, output)"
| "unloop_outer passed (x # xs) output =
     (let r = unloop_inner (m_vertex x) [x] xs output in
      unloop_outer (passed @ [hd (fst r)]) (tl (fst r)) (snd r))"
  by pat_completeness auto
termination
  by (relation "measure (\<lambda>(passed, cur, out). length cur)")
    (simp_all add: length_tl_unloop_inner del: length_tl)

text \<open>
  \<open>unloop_contour\<close> appends to \<open>output\<close>; the contour \<open>C\<close> itself is a temporary of the
  caller, so the model returns the output only.
\<close>

definition unloop_contour :: "Contour \<Rightarrow> Contour list \<Rightarrow> Contour list" where
  "unloop_contour C output =
     (if C = [] then output
      else (case unloop_outer [] C output of
              (C', output') \<Rightarrow> if C' \<noteq> [] then output' @ [C'] else output'))"

text \<open>A contour over the given vertices, no point of it on the boundary.\<close>

definition contour_of :: "nat list \<Rightarrow> Contour" where
  "contour_of vs = map (\<lambda>v. \<lparr>m_vertex = v, m_flags = 0\<rparr>) vs"


section \<open>CoordinateConverter and the point tables of PointHoard\<close>

text \<open>The constants of \<open>CoordinateConverterConstants\<close>.\<close>

definition log2_box_dim :: nat where "log2_box_dim = 24"
definition negative_log2_fudge :: nat where "negative_log2_fudge = 20"
definition box_dim :: int where "box_dim = 2 ^ log2_box_dim"

text \<open>\<open>fudge_delta\<close>: \<open>exp2(-negative_log2_fudge)\<close>, a power of two and so exact as a double.\<close>

definition fudge_delta :: real where
  "fudge_delta = 1 / 2 ^ negative_log2_fudge"

type_synonym ivec2 = "int \<times> int"

text \<open>
  The tables of a PointHoard: the map from integer points to vertices, the integer
  points and the points before the transformation, and the bounding box of the
  converter.
\<close>

record PointHoard =
  m_map :: "ivec2 \<rightharpoonup> nat"
  m_ipts :: "ivec2 list"
  m_pts :: "dvec2 list"
  bounds_min :: dvec2
  bounds_max :: dvec2

text \<open>
  \<open>fetch_corner\<close>: the vertex of a corner of the box, entered into the tables when the
  map does not have its integer point yet.  The model returns the vertex and the
  hoard after the call.
\<close>

definition fetch_corner :: "bool \<Rightarrow> bool \<Rightarrow> PointHoard \<Rightarrow> nat \<times> PointHoard" where
  "fetch_corner is_max_x is_max_y h =
     (let ipt = (if is_max_x then box_dim + 1 else 1, if is_max_y then box_dim + 1 else 1);
          P = (if is_max_x then fst (bounds_max h) else fst (bounds_min h),
               if is_max_y then snd (bounds_max h) else snd (bounds_min h))
      in (case m_map h ipt of
            Some v \<Rightarrow> (v, h)
          | None \<Rightarrow>
              (length (m_pts h),
               h\<lparr>m_pts := m_pts h @ [P], m_ipts := m_ipts h @ [ipt],
                 m_map := (m_map h)(ipt \<mapsto> length (m_pts h))\<rparr>)))"

text \<open>
  \<open>fetch_undiscretized\<close> enters a point without looking it up; \<open>ipt\<close> is the value
  of \<open>iapply\<close> at the point, which the caller of the model supplies (the conversion to
  the grid is a computation on doubles).
\<close>

definition fetch_undiscretized :: "dvec2 \<Rightarrow> ivec2 \<Rightarrow> PointHoard \<Rightarrow> nat \<times> PointHoard" where
  "fetch_undiscretized pt ipt h =
     (length (m_pts h), h\<lparr>m_ipts := m_ipts h @ [ipt], m_pts := m_pts h @ [pt]\<rparr>)"

text \<open>
  \<open>fetch_discretized\<close>: \<open>ipt\<close> is again the value of \<open>iapply\<close> at the point; the
  coordinates of a point on the boundary are overridden by the boundary's.
\<close>

definition fetch_discretized :: "dvec2 \<Rightarrow> ivec2 \<Rightarrow> uint32 \<Rightarrow> PointHoard \<Rightarrow> nat \<times> PointHoard" where
  "fetch_discretized pt ipt0 fl h =
     (let x = fst ipt0; y = snd ipt0;
          x = (if fl AND on_min_x_boundary \<noteq> 0 then 1 else x);
          x = (if fl AND on_max_x_boundary \<noteq> 0 then box_dim + 1 else x);
          y = (if fl AND on_min_y_boundary \<noteq> 0 then 1 else y);
          y = (if fl AND on_max_y_boundary \<noteq> 0 then box_dim + 1 else y);
          ipt = (x, y)
      in (case m_map h ipt of
            Some v \<Rightarrow> (v, h)
          | None \<Rightarrow>
              (length (m_pts h),
               h\<lparr>m_pts := m_pts h @ [pt], m_ipts := m_ipts h @ [ipt],
                 m_map := (m_map h)(ipt \<mapsto> length (m_pts h))\<rparr>)))"

text \<open>
  The PointHoard a builder starts with: the point vector it is given is the empty
  \<open>m_points\<close> of a fresh \<open>FillAttributeDataFiller\<close>.
\<close>

definition new_PointHoard :: "dvec2 \<Rightarrow> dvec2 \<Rightarrow> PointHoard" where
  "new_PointHoard pmin pmax =
     \<lparr>m_map = Map.empty, m_ipts = [], m_pts = [], bounds_min = pmin, bounds_max = pmax\<rparr>"

text \<open>
  The representation invariant of the tables: the two point vectors have one length,
  and the map sends an integer point to a vertex that holds this integer point.
\<close>

definition hoard_inv :: "PointHoard \<Rightarrow> bool" where
  "hoard_inv h \<longleftrightarrow>
     length (m_pts h) = length (m_ipts h) \<and>
     (\<forall>ipt v. m_map h ipt = Some v \<longrightarrow> v < length (m_ipts h) \<and> m_ipts h ! v = ipt)"

subsection \<open>\<open>PointHoard::apply\<close> and the vertices a tesser delivers\<close>

text \<open>
  \<open>apply\<close> reads \<open>m_ipts[I]\<close>; the vertex is an index of the table in every call, and
  the model returns \<open>None\<close> otherwise.  The integer point is converted to doubles and
  the fudge \<open>fudge_count * fudge_delta\<close> is added or subtracted per axis.  For a point
  of the grid and a count below \<open>2 ^ 32\<close> these are multiples of \<open>2 ^ -20\<close> below
  \<open>2 ^ 26\<close> in absolute value, which a double holds exactly: the real numbers of the
  model are the doubles of the program.
\<close>

definition apply_fudge :: "PointHoard \<Rightarrow> nat \<Rightarrow> nat \<Rightarrow> dvec2 option" where
  "apply_fudge h I fudge_count =
     (if I < length (m_ipts h)
      then (let ipt = m_ipts h ! I;
                fudge_r = real fudge_count * fudge_delta;
                fudge_x = (if fst ipt \<ge> box_dim div 2 then - fudge_r else fudge_r);
                fudge_y = (if snd ipt \<ge> box_dim div 2 then - fudge_r else fudge_r)
            in Some (real_of_int (fst ipt) + fudge_x, real_of_int (snd ipt) + fudge_y))
      else None)"

text \<open>
  What the triangulator receives: \<open>fastuidraw_gluTessVertex(x, y, id)\<close> is recorded as
  the point and the vertex id.  The state threaded through \<open>add_contour\<close> is
  \<open>m_point_count\<close>, an \<open>unsigned int\<close> whose increment wraps at \<open>2 ^ 32\<close>, and the
  list of the vertices delivered so far.
\<close>

type_synonym delivered = "(dvec2 \<times> nat) list"

definition uint_wrap :: "nat \<Rightarrow> nat" where
  "uint_wrap n = n mod 2 ^ 32"

fun add_contour :: "PointHoard \<Rightarrow> Contour \<Rightarrow> nat \<times> delivered \<Rightarrow> (nat \<times> delivered) option" where
  "add_contour h [] st = Some st"
| "add_contour h (I # C) (m_point_count, sent) =
     (case apply_fudge h (m_vertex I) m_point_count of
        None \<Rightarrow> None
      | Some p \<Rightarrow>
          add_contour h C (uint_wrap (m_point_count + 1), sent @ [(p, m_vertex I)]))"

fun add_path :: "PointHoard \<Rightarrow> Contour list \<Rightarrow> nat \<times> delivered \<Rightarrow> (nat \<times> delivered) option" where
  "add_path h [] st = Some st"
| "add_path h (q # P) st =
     (case add_contour h q st of None \<Rightarrow> None | Some st' \<Rightarrow> add_path h P st')"

text \<open>
  The vertices one tesser delivers: its constructor sets \<open>m_point_count\<close> to 0 and
  calls \<open>add_path\<close> once.
\<close>

definition tesser_delivers :: "PointHoard \<Rightarrow> Contour list \<Rightarrow> delivered option" where
  "tesser_delivers h P = map_option snd (add_path h P (0, []))"

text \<open>
  A small hoard whose first two vertices have the same integer point, and a contour
  over its three vertices.
\<close>

definition tiny_hoard :: PointHoard where
  "tiny_hoard =
     \<lparr>m_map = [(5, 5) \<mapsto> 0, (7, 9) \<mapsto> 2], m_ipts = [(5, 5), (5, 5), (7, 9)],
      m_pts = [(0, 0), (0, 0), (1, 1)], bounds_min = (0, 0), bounds_max = (4, 4)\<rparr>"

definition tiny_path :: "Contour list" where
  "tiny_path = [contour_of [0, 1, 2]]"

text \<open>
  A hoard of \<open>2 ^ 19 + 2\<close> vertices with pairwise different integer points: the
  vertices \<open>0\<close> to \<open>2 ^ 19\<close> lie on the row \<open>y = 2 ^ 23 - 1\<close> at \<open>x = 2 ^ 23 - 2 ^ 19 + k\<close>,
  the last vertex is the point \<open>(2 ^ 23, 2 ^ 23)\<close>.  The path is the single contour
  that runs through the vertices in order.
\<close>

definition fudge_len :: nat where
  "fudge_len = 2 ^ 19 + 2"

definition fudge_ipt :: "nat \<Rightarrow> ivec2" where
  "fudge_ipt k =
     (if k = 2 ^ 19 + 1 then (2 ^ 23, 2 ^ 23) else (2 ^ 23 - 2 ^ 19 + int k, 2 ^ 23 - 1))"

definition fudge_hoard :: PointHoard where
  "fudge_hoard =
     \<lparr>m_map = (\<lambda>(x, y).
         if (x, y) = (2 ^ 23, 2 ^ 23) then Some (2 ^ 19 + 1)
         else if y = 2 ^ 23 - 1 \<and> 2 ^ 23 - 2 ^ 19 \<le> x \<and> x \<le> 2 ^ 23
              then Some (nat (x - (2 ^ 23 - 2 ^ 19)))
         else None),
      m_ipts = map fudge_ipt [0..<fudge_len],
      m_pts = map (\<lambda>k. (0, 0)) [0..<fudge_len],
      bounds_min = (0, 0), bounds_max = (1, 1)\<rparr>"

definition fudge_path :: "Contour list" where
  "fudge_path = [map (\<lambda>k. \<lparr>m_vertex = k, m_flags = 0\<rparr>) [0..<fudge_len]]"

text \<open>
  The look-up that \<open>fetch_discretized\<close> and \<open>fetch_corner\<close> end with, as one function:
  the vertex of the integer point when the map has it, a new vertex otherwise.
\<close>

definition find_or_add :: "dvec2 \<Rightarrow> ivec2 \<Rightarrow> PointHoard \<Rightarrow> nat \<times> PointHoard" where
  "find_or_add pt ipt h =
     (case m_map h ipt of
        Some v \<Rightarrow> (v, h)
      | None \<Rightarrow>
          (length (m_pts h),
           h\<lparr>m_pts := m_pts h @ [pt], m_ipts := m_ipts h @ [ipt],
             m_map := (m_map h)(ipt \<mapsto> length (m_pts h))\<rparr>))"

text \<open>The integer point and the point of a corner of the box.\<close>

definition corner_ipt :: "bool \<Rightarrow> bool \<Rightarrow> ivec2" where
  "corner_ipt is_max_x is_max_y =
     (if is_max_x then box_dim + 1 else 1, if is_max_y then box_dim + 1 else 1)"

definition corner_position :: "PointHoard \<Rightarrow> bool \<Rightarrow> bool \<Rightarrow> dvec2" where
  "corner_position h is_max_x is_max_y =
     (if is_max_x then fst (bounds_max h) else fst (bounds_min h),
      if is_max_y then snd (bounds_max h) else snd (bounds_min h))"

text \<open>The integer point that \<open>fetch_discretized\<close> looks up.\<close>

definition boundary_ipt :: "ivec2 \<Rightarrow> uint32 \<Rightarrow> ivec2" where
  "boundary_ipt ipt0 fl =
     (let x = fst ipt0; y = snd ipt0;
          x = (if fl AND on_min_x_boundary \<noteq> 0 then 1 else x);
          x = (if fl AND on_max_x_boundary \<noteq> 0 then box_dim + 1 else x);
          y = (if fl AND on_min_y_boundary \<noteq> 0 then 1 else y);
          y = (if fl AND on_max_y_boundary \<noteq> 0 then box_dim + 1 else y)
      in (x, y))"


section \<open>Winding components, edge lists and the tesser\<close>

text \<open>\<open>Edge\<close> and \<open>EdgeList\<close>.  An index of a point is a natural number.\<close>

record Edge =
  m_start :: nat
  m_end :: nat
  m_next :: nat
  m_draw_edge :: bool
  m_draw_bevel :: bool

definition num_attributes :: "Edge \<Rightarrow> nat" where
  "num_attributes e = (if m_draw_edge e then 4 else 0) + (if m_draw_bevel e then 3 else 0)"

definition num_indices :: "Edge \<Rightarrow> nat" where
  "num_indices e = (if m_draw_edge e then 6 else 0) + (if m_draw_bevel e then 3 else 0)"

record EdgeList =
  m_edges :: "Edge list"
  m_attribute_count :: nat
  m_index_count :: nat
  m_edge_count :: nat
  m_current :: "Edge list"

definition new_EdgeList :: EdgeList where
  "new_EdgeList =
     \<lparr>m_edges = [], m_attribute_count = 0, m_index_count = 0, m_edge_count = 0, m_current = []\<rparr>"

text \<open>
  \<open>add_edge\<close>.  The fields \<open>m_next\<close> and \<open>m_draw_bevel\<close> of the new edge are not
  initialised by the source; they are written before they are read (by the next
  \<open>add_edge\<close> or by \<open>end_boundary\<close>), and the model starts them at 0 and \<open>False\<close>.
\<close>

definition add_edge :: "nat \<Rightarrow> nat \<Rightarrow> bool \<Rightarrow> EdgeList \<Rightarrow> EdgeList" where
  "add_edge p0 p1 edge_drawn L =
     (let cur = m_current L;
          cur = (if cur \<noteq> []
                 then butlast cur @
                      [(last cur)\<lparr>m_next := p1,
                                  m_draw_bevel := edge_drawn \<or> m_draw_edge (last cur)\<rparr>]
                 else cur);
          E = \<lparr>m_start = p0, m_end = p1, m_next = 0, m_draw_edge = edge_drawn,
               m_draw_bevel = False\<rparr>
      in L\<lparr>m_current := cur @ [E]\<rparr>)"

fun push_edges :: "Edge list \<Rightarrow> EdgeList \<Rightarrow> EdgeList" where
  "push_edges [] L = L"
| "push_edges (e # es) L =
     push_edges es
       (if m_draw_edge e \<or> m_draw_bevel e
        then L\<lparr>m_edges := m_edges L @ [e], m_edge_count := m_edge_count L + 1,
               m_attribute_count := m_attribute_count L + num_attributes e,
               m_index_count := m_index_count L + num_indices e\<rparr>
        else L)"

definition end_boundary :: "EdgeList \<Rightarrow> EdgeList" where
  "end_boundary L =
     (if m_current L = [] then L
      else (let cur = m_current L;
                cur = butlast cur @
                      [(last cur)\<lparr>m_next := m_end (hd cur),
                                  m_draw_bevel := m_draw_edge (hd cur) \<or> m_draw_edge (last cur)\<rparr>]
            in (push_edges cur L)\<lparr>m_current := []\<rparr>))"

text \<open>
  \<open>WindingComponentData\<close>.  A \<open>TriangleList\<close> is the list of its indices: its counter
  \<open>m_count\<close> is incremented by \<open>add_index\<close> together with every \<open>push_back\<close> and
  changed by nothing else, so \<open>count()\<close> is the length of the list.
\<close>

record WindingComponentData =
  m_triangles :: "nat list"
  m_edge_list :: EdgeList

definition new_WindingComponentData :: WindingComponentData where
  "new_WindingComponentData = \<lparr>m_triangles = [], m_edge_list = new_EdgeList\<rparr>"

text \<open>
  \<open>PerWindingComponentData\<close> is a \<open>std::map\<close> from winding numbers to components; it is
  modelled by the list of its entries in the order of iteration, which is the
  increasing order of the keys.  \<open>component_at\<close> is \<open>m_hoard[w]\<close> followed by the
  creation of the component when the entry is new: it returns the map with an entry
  for \<open>w\<close>.
\<close>

type_synonym PerWindingComponentData = "(int \<times> WindingComponentData) list"

fun component_at :: "int \<Rightarrow> PerWindingComponentData \<Rightarrow> PerWindingComponentData" where
  "component_at w [] = [(w, new_WindingComponentData)]"
| "component_at w ((k, c) # H) =
     (if w = k then (k, c) # H
      else if w < k then (w, new_WindingComponentData) # (k, c) # H
      else (k, c) # component_at w H)"

fun update_component ::
  "int \<Rightarrow> (WindingComponentData \<Rightarrow> WindingComponentData) \<Rightarrow> PerWindingComponentData
     \<Rightarrow> PerWindingComponentData" where
  "update_component w f [] = []"
| "update_component w f ((k, c) # H) =
     (if w = k then (k, f c) # H else (k, c) # update_component w f H)"

text \<open>
  What is outside the repository's files: the sentinel \<open>FASTUIDRAW_GLU_nullptr_CLIENT_ID\<close>,
  the function \<open>fastuidraw::t_sqrt\<close> on doubles, the computation on doubles of
  \<open>CoordinateConverter::iapply\<close> before it is clamped (\<open>m_scale * (pt - m_translate)\<close>
  converted to \<open>int\<close>), and the triangulator, which is given the vertices of the path
  and calls the callbacks of the tesser.  They are parameters of the model.
\<close>

datatype glu_event =
    Begin_cb int
  | Vertex_cb nat
  | Combine_cb dvec2
  | Boundary_cb bool bool
  | EmitMonotone_cb int "nat list" "int list"

record glu =
  nullptr_CLIENT_ID :: nat
  t_sqrt :: "real \<Rightarrow> real"
  scaled :: "dvec2 \<Rightarrow> ivec2"
  callbacks :: "delivered \<Rightarrow> glu_event list"

definition clamp_int :: "int \<Rightarrow> int" where
  "clamp_int v = min (max v 0) box_dim"

definition iapply :: "glu \<Rightarrow> dvec2 \<Rightarrow> ivec2" where
  "iapply g pt = (1 + clamp_int (fst (scaled g pt)), 1 + clamp_int (snd (scaled g pt)))"

text \<open>The state of a tesser.  \<open>m_current_indices\<close> is the key of the component it points to.\<close>

record tesser =
  m_point_count :: nat
  m_points :: PointHoard
  m_temp_verts :: "nat list"
  m_temp_vert_count :: nat
  m_triangulation_failed :: bool
  m_current_winding :: int
  m_winding_offset :: int
  m_current_indices :: "int option"
  m_hoard :: PerWindingComponentData

definition min_height :: real where
  "min_height = 2 ^ 7"

definition dot :: "ivec2 \<Rightarrow> ivec2 \<Rightarrow> int" where
  "dot a b = fst a * fst b + snd a * snd b"

text \<open>
  \<open>temp_verts_non_degenerate_triangle\<close>.  \<open>None\<close> is a read outside \<open>m_ipts\<close>.  The
  integer points are points of the grid (every \<open>fetch\<close> function stores such a
  point), so the 64-bit products of the source do not overflow and are modelled in
  \<open>int\<close>; a value below \<open>2 ^ 53\<close> is converted to a double exactly, and the product
  with \<open>min_height\<close>, a power of two, is exact.
\<close>

definition temp_verts_non_degenerate_triangle :: "glu \<Rightarrow> tesser \<Rightarrow> bool option" where
  "temp_verts_non_degenerate_triangle g p =
     (let t = m_temp_verts p in
      if t ! 0 = t ! 1 \<or> t ! 0 = t ! 2 \<or> t ! 1 = t ! 2 then Some False
      else if \<not> (t ! 0 < length (m_ipts (m_points p)) \<and> t ! 1 < length (m_ipts (m_points p))
                 \<and> t ! 2 < length (m_ipts (m_points p))) then None
      else (let p0 = m_ipts (m_points p) ! (t ! 0);
                p1 = m_ipts (m_points p) ! (t ! 1);
                p2 = m_ipts (m_points p) ! (t ! 2);
                v = (fst p1 - fst p0, snd p1 - snd p0);
                w = (fst p2 - fst p0, snd p2 - snd p0);
                twice_area = \<bar>fst v * snd w - snd v * fst w\<bar>
            in if twice_area = 0 then Some False
               else (let u = (fst p2 - fst p1, snd p2 - snd p1);
                         two_area = real_of_int twice_area;
                         vmag = t_sqrt g (real_of_int (dot v v));
                         wmag = t_sqrt g (real_of_int (dot w w));
                         umag = t_sqrt g (real_of_int (dot u u))
                     in if two_area < min_height * vmag \<or> two_area < min_height * wmag
                           \<or> two_area < min_height * umag
                        then Some False else Some True)))"

definition begin_callBack :: "int \<Rightarrow> tesser \<Rightarrow> tesser" where
  "begin_callBack glu_tess_winding_number p =
     (let w = glu_tess_winding_number + m_winding_offset p in
      p\<lparr>m_temp_vert_count := 0, m_current_winding := w,
        m_hoard := component_at w (m_hoard p), m_current_indices := Some w\<rparr>)"

text \<open>
  \<open>vertex_callBack\<close>.  \<open>None\<close> is a write outside the three \<open>m_temp_verts\<close>, a read
  outside \<open>m_ipts\<close>, or a triangle added through a null \<open>m_current_indices\<close>.
\<close>

definition vertex_callBack :: "glu \<Rightarrow> nat \<Rightarrow> tesser \<Rightarrow> tesser option" where
  "vertex_callBack g vertex_id p =
     (let p = (if vertex_id = nullptr_CLIENT_ID g then p\<lparr>m_triangulation_failed := True\<rparr> else p)
      in if \<not> m_temp_vert_count p < 3 then None
         else (let p = p\<lparr>m_temp_verts := (m_temp_verts p)[m_temp_vert_count p := vertex_id],
                          m_temp_vert_count := m_temp_vert_count p + 1\<rparr>
               in if m_temp_vert_count p = 3
                  then (let p = p\<lparr>m_temp_vert_count := 0\<rparr>; t = m_temp_verts p
                        in if t ! 0 \<noteq> nullptr_CLIENT_ID g \<and> t ! 1 \<noteq> nullptr_CLIENT_ID g
                              \<and> t ! 2 \<noteq> nullptr_CLIENT_ID g
                           then (case temp_verts_non_degenerate_triangle g p of
                                   None \<Rightarrow> None
                                 | Some False \<Rightarrow> Some p
                                 | Some True \<Rightarrow>
                                     (case m_current_indices p of
                                        None \<Rightarrow> None
                                      | Some k \<Rightarrow>
                                          Some (p\<lparr>m_hoard :=
                                            update_component k
                                              (\<lambda>c. c\<lparr>m_triangles := m_triangles c @ [t ! 0, t ! 1, t ! 2]\<rparr>)
                                              (m_hoard p)\<rparr>)))
                           else Some p)
                  else Some p))"

definition combine_callback :: "glu \<Rightarrow> dvec2 \<Rightarrow> tesser \<Rightarrow> tesser" where
  "combine_callback g pt p =
     p\<lparr>m_points := snd (fetch_undiscretized pt (iapply g pt) (m_points p))\<rparr>"

definition boundary_callback :: "bool \<Rightarrow> bool \<Rightarrow> tesser \<Rightarrow> tesser" where
  "boundary_callback is_max_x is_max_y p =
     p\<lparr>m_points := snd (fetch_corner is_max_x is_max_y (m_points p))\<rparr>"

definition edge_hugs_boundary :: "PointHoard \<Rightarrow> nat \<Rightarrow> nat \<Rightarrow> bool option" where
  "edge_hugs_boundary h a b =
     (if a < length (m_ipts h) \<and> b < length (m_ipts h)
      then (let pA = m_ipts h ! a; pB = m_ipts h ! b; slack = 1 in
            Some ((fst pA \<le> slack \<and> fst pB \<le> slack)
                \<or> (fst pA \<ge> box_dim - slack \<and> fst pB \<ge> box_dim - slack)
                \<or> (snd pA \<le> slack \<and> snd pB \<le> slack)
                \<or> (snd pA \<ge> box_dim - slack \<and> snd pB \<ge> box_dim - slack)))
      else None)"

text \<open>
  The loop of \<open>emitmonotone_callback\<close> over the edges \<open>i = start, \<dots>, count - 1\<close> of the
  polygon; \<open>None\<close> is a read outside the arrays or outside \<open>m_ipts\<close>.
\<close>

fun monotone_edges ::
  "PointHoard \<Rightarrow> int \<Rightarrow> nat list \<Rightarrow> int list \<Rightarrow> nat list \<Rightarrow> EdgeList \<Rightarrow> EdgeList option" where
  "monotone_edges h glu_tess_winding vertex_ids winding_ids [] L = Some L"
| "monotone_edges h glu_tess_winding vertex_ids winding_ids (i # is) L =
     (let count = length vertex_ids;
          inext = (if i + 1 < count then i + 1 else 0)
      in if \<not> (i < length winding_ids) then None
         else (case edge_hugs_boundary h (vertex_ids ! i) (vertex_ids ! inext) of
                 None \<Rightarrow> None
               | Some hugs_bdy \<Rightarrow>
                   (let same_winding = (winding_ids ! i = glu_tess_winding);
                        draw_edge = (\<not> hugs_bdy \<and> \<not> same_winding)
                    in monotone_edges h glu_tess_winding vertex_ids winding_ids is
                         (add_edge (vertex_ids ! i) (vertex_ids ! inext) draw_edge L))))"

definition emitmonotone_callback :: "int \<Rightarrow> nat list \<Rightarrow> int list \<Rightarrow> tesser \<Rightarrow> tesser option" where
  "emitmonotone_callback glu_tess_winding vertex_ids winding_ids p =
     (let winding = m_winding_offset p + glu_tess_winding;
          H = component_at winding (m_hoard p)
      in (case map_of H winding of
            None \<Rightarrow> None
          | Some c \<Rightarrow>
              (case monotone_edges (m_points p) glu_tess_winding vertex_ids winding_ids
                      [0..<length vertex_ids] (m_edge_list c) of
                 None \<Rightarrow> None
               | Some L \<Rightarrow>
                   Some (p\<lparr>m_hoard :=
                     update_component winding (\<lambda>c. c\<lparr>m_edge_list := end_boundary L\<rparr>) H\<rparr>))))"

fun callback :: "glu \<Rightarrow> glu_event \<Rightarrow> tesser \<Rightarrow> tesser option" where
  "callback g (Begin_cb w) p = Some (begin_callBack w p)"
| "callback g (Vertex_cb v) p = vertex_callBack g v p"
| "callback g (Combine_cb pt) p = Some (combine_callback g pt p)"
| "callback g (Boundary_cb mx my) p = Some (boundary_callback mx my p)"
| "callback g (EmitMonotone_cb w vs ws) p = emitmonotone_callback w vs ws p"

fun run_callbacks :: "glu \<Rightarrow> glu_event list \<Rightarrow> tesser \<Rightarrow> tesser option" where
  "run_callbacks g [] p = Some p"
| "run_callbacks g (e # es) p =
     (case callback g e p of None \<Rightarrow> None | Some p' \<Rightarrow> run_callbacks g es p')"

text \<open>
  The notions the statement about the vertex callback is phrased with, for three
  vertices \<open>a\<close>, \<open>b\<close>, \<open>c\<close> of the point tables: the square of the length of the edge
  between the integer points of two vertices, and twice the area of the triangle of
  the three integer points, the absolute value of the cross product of the edge
  vectors \<open>pb - pa\<close> and \<open>pc - pa\<close>.
\<close>

definition squared_length :: "PointHoard \<Rightarrow> nat \<Rightarrow> nat \<Rightarrow> int" where
  "squared_length h a b =
     (fst (m_ipts h ! b) - fst (m_ipts h ! a))\<^sup>2 + (snd (m_ipts h ! b) - snd (m_ipts h ! a))\<^sup>2"

definition twice_area :: "PointHoard \<Rightarrow> nat \<Rightarrow> nat \<Rightarrow> nat \<Rightarrow> int" where
  "twice_area h a b c =
     \<bar>(fst (m_ipts h ! b) - fst (m_ipts h ! a)) * (snd (m_ipts h ! c) - snd (m_ipts h ! a))
        - (snd (m_ipts h ! b) - snd (m_ipts h ! a)) * (fst (m_ipts h ! c) - fst (m_ipts h ! a))\<bar>"

text \<open>
  The condition under which a group of three vertex ids is appended: no id is the
  null sentinel, the ids are pairwise distinct, twice the area is not zero, and twice
  the area is at least \<open>2 ^ 7\<close> times what \<open>t_sqrt\<close> returns for the square of the
  length of each of the three edges.
\<close>

definition triangle_accepted :: "glu \<Rightarrow> PointHoard \<Rightarrow> nat \<Rightarrow> nat \<Rightarrow> nat \<Rightarrow> bool" where
  "triangle_accepted g h a b c \<longleftrightarrow>
     a \<noteq> nullptr_CLIENT_ID g \<and> b \<noteq> nullptr_CLIENT_ID g \<and> c \<noteq> nullptr_CLIENT_ID g
     \<and> a \<noteq> b \<and> a \<noteq> c \<and> b \<noteq> c
     \<and> twice_area h a b c \<noteq> 0
     \<and> 2 ^ 7 * t_sqrt g (real_of_int (squared_length h a b)) \<le> real_of_int (twice_area h a b c)
     \<and> 2 ^ 7 * t_sqrt g (real_of_int (squared_length h a c)) \<le> real_of_int (twice_area h a b c)
     \<and> 2 ^ 7 * t_sqrt g (real_of_int (squared_length h b c)) \<le> real_of_int (twice_area h a b c)"

text \<open>
  Every altitude of the triangle is at least \<open>r\<close>: twice the area is at least \<open>r\<close> times
  the length of each of the three edges.
\<close>

definition altitudes_at_least :: "PointHoard \<Rightarrow> nat \<Rightarrow> nat \<Rightarrow> nat \<Rightarrow> real \<Rightarrow> bool" where
  "altitudes_at_least h a b c r \<longleftrightarrow>
     r * sqrt (real_of_int (squared_length h a b)) \<le> real_of_int (twice_area h a b c)
     \<and> r * sqrt (real_of_int (squared_length h a c)) \<le> real_of_int (twice_area h a b c)
     \<and> r * sqrt (real_of_int (squared_length h b c)) \<le> real_of_int (twice_area h a b c)"

text \<open>
  \<open>t_sqrt\<close> is accurate on the squares of the lengths of the three edges: what it
  returns differs from the square root by at most the \<open>2 ^ 53\<close>-th part of the root,
  the bound of a square root rounded to the nearest double.
\<close>

definition sqrt_accurate :: "glu \<Rightarrow> PointHoard \<Rightarrow> nat \<Rightarrow> nat \<Rightarrow> nat \<Rightarrow> bool" where
  "sqrt_accurate g h a b c \<longleftrightarrow>
     \<bar>t_sqrt g (real_of_int (squared_length h a b)) - sqrt (real_of_int (squared_length h a b))\<bar>
       \<le> sqrt (real_of_int (squared_length h a b)) / 2 ^ 53
     \<and> \<bar>t_sqrt g (real_of_int (squared_length h a c)) - sqrt (real_of_int (squared_length h a c))\<bar>
       \<le> sqrt (real_of_int (squared_length h a c)) / 2 ^ 53
     \<and> \<bar>t_sqrt g (real_of_int (squared_length h b c)) - sqrt (real_of_int (squared_length h b c))\<bar>
       \<le> sqrt (real_of_int (squared_length h b c)) / 2 ^ 53"

subsection \<open>The square root of a double\<close>

text \<open>
  \<open>fastuidraw::t_sqrt\<close> is outside the repository's files; on a double it is
  \<open>std::sqrt\<close>, the square root rounded to the nearest double, a tie going to the even
  significand.  \<open>binary64\<close> is this rounding to 53 significant bits, without the bounds
  on the exponent: the tesser takes the roots of integers between 1 and \<open>2 ^ 51\<close>.
\<close>

definition round_to_even :: "real \<Rightarrow> int" where
  "round_to_even x =
     (let f = \<lfloor>x\<rfloor> in
      if x - of_int f < 1 / 2 then f
      else if 1 / 2 < x - of_int f then f + 1
      else if even f then f else f + 1)"

definition binary64 :: "real \<Rightarrow> real" where
  "binary64 x =
     (if x = 0 then 0
      else (let ulp = 2 powr (of_int \<lfloor>log 2 \<bar>x\<bar>\<rfloor> - 52)
            in of_int (round_to_even (x / ulp)) * ulp))"

definition double_sqrt :: "real \<Rightarrow> real" where
  "double_sqrt x = binary64 (sqrt x)"

section \<open>The builder of a SubPath\<close>

text \<open>
  A SubPath, with the members the builder and the tree of subsets read: its bounding
  box, its contours and its number of points.
\<close>

record SubPath =
  m_bounds_min :: dvec2
  m_bounds_max :: dvec2
  m_contours :: "SubContour list"
  m_num_points :: nat

subsection \<open>\<open>PointHoard::generate_path\<close>\<close>

text \<open>
  The first loop of \<open>generate_contour\<close>: a point is appended when its vertex differs
  from the vertex of the last point of the output.
\<close>

fun discretize_points ::
  "glu \<Rightarrow> SubContour \<Rightarrow> Contour \<times> int \<times> PointHoard \<Rightarrow> Contour \<times> int \<times> PointHoard" where
  "discretize_points g [] st = st"
| "discretize_points g (q # C) (output, sz, h) =
     (let (I, h') = fetch_discretized (position q) (iapply g (position q)) (flags q) h in
      discretize_points g C
        (if output = [] \<or> I \<noteq> m_vertex (last output)
         then (output @ [\<lparr>m_vertex = I, m_flags = flags q\<rparr>], sz + 1, h')
         else (output, sz, h')))"

text \<open>The second loop: points are popped from the back while they repeat the front.\<close>

function pop_repeated_tail :: "Contour \<Rightarrow> int \<Rightarrow> Contour \<times> int" where
  "pop_repeated_tail output sz =
     (if output \<noteq> [] \<and> m_vertex (last output) = m_vertex (hd output)
      then pop_repeated_tail (butlast output) (sz - 1)
      else (output, sz))"
  by pat_completeness auto
termination
  by (relation "measure (\<lambda>(output, sz). length output)") auto

declare pop_repeated_tail.simps [simp del]

definition generate_contour :: "glu \<Rightarrow> SubContour \<Rightarrow> PointHoard \<Rightarrow> Contour \<times> PointHoard" where
  "generate_contour g C h =
     (let (output, sz, h') = discretize_points g C ([], 0, h);
          (output, sz) = pop_repeated_tail output sz
      in (if sz < 3 then [] else output, h'))"

definition add_contour_to_path ::
  "glu \<Rightarrow> SubContour \<Rightarrow> Contour list \<times> PointHoard \<Rightarrow> int \<times> Contour list \<times> PointHoard" where
  "add_contour_to_path g C st =
     (let (tmp, h') = generate_contour g C (snd st);
          tmp_unlooped = unloop_contour tmp [];
          (w, path_output) = add_reduced tmp_unlooped 0 (fst st)
      in (w, path_output, h'))"

fun generate_path_loop ::
  "glu \<Rightarrow> SubContour list \<Rightarrow> int \<times> Contour list \<times> PointHoard \<Rightarrow> int \<times> Contour list \<times> PointHoard" where
  "generate_path_loop g [] st = st"
| "generate_path_loop g (C # Cs) (return_value, output, h) =
     (let (w, output', h') = add_contour_to_path g C (output, h) in
      generate_path_loop g Cs (return_value + w, output', h'))"

definition generate_path :: "glu \<Rightarrow> SubPath \<Rightarrow> PointHoard \<Rightarrow> int \<times> Contour list \<times> PointHoard" where
  "generate_path g input h = generate_path_loop g (m_contours input) (0, [], h)"

subsection \<open>The constructor of the builder\<close>

text \<open>
  The members of a builder.  The tesser works on \<open>m_hoard\<close> and \<open>m_points\<close> of the
  builder through references; the fields of the builder carry the prefix \<open>builder\<close>
  to keep them apart from the fields of the tesser's record.
\<close>

record builder =
  builder_hoard :: PerWindingComponentData
  builder_points :: PointHoard
  builder_failed :: bool

text \<open>
  The constructor of the tesser: the members it initialises, \<open>add_path\<close>, and the
  callbacks the triangulator makes for the vertices delivered.  \<open>m_temp_verts\<close> and
  \<open>m_temp_vert_count\<close> are not initialised by the source, \<open>begin_callBack\<close> sets the
  counter; the model starts the counter at 3, so that a vertex callback before the
  first begin callback is a failure of the model.
\<close>

definition new_tesser :: "glu \<Rightarrow> PointHoard \<Rightarrow> Contour list \<Rightarrow> int \<Rightarrow> PerWindingComponentData
    \<Rightarrow> tesser option" where
  "new_tesser g points P winding_offset hoard =
     (case add_path points P (0, []) of
        None \<Rightarrow> None
      | Some (cnt, sent) \<Rightarrow>
          run_callbacks g (callbacks g sent)
            \<lparr>m_point_count = cnt, m_points = points, m_temp_verts = [0, 0, 0],
             m_temp_vert_count = 3, m_triangulation_failed = False, m_current_winding = 0,
             m_winding_offset = winding_offset, m_current_indices = None, m_hoard = hoard\<rparr>)"

text \<open>The loop of the constructor that erases the components without triangles.\<close>

fun erase_empty :: "PerWindingComponentData \<Rightarrow> PerWindingComponentData" where
  "erase_empty [] = []"
| "erase_empty ((w, c) # H) =
     (if m_triangles c = [] then erase_empty H else (w, c) # erase_empty H)"

text \<open>
  The part of the constructor after the tesser: the components without triangles are
  erased, and a map that is empty then gets the bounding rectangle as one component.
\<close>

definition builder_finish :: "int \<Rightarrow> tesser \<Rightarrow> builder" where
  "builder_finish winding_offset T =
     (let hoard = erase_empty (m_hoard T); points = m_points T in
      if hoard = []
      then (let (i0, points) = fetch_corner True True points;
                (i1, points) = fetch_corner True False points;
                (i2, points) = fetch_corner False False points;
                (i3, points) = fetch_corner True True points;
                (i4, points) = fetch_corner False False points;
                (i5, points) = fetch_corner False True points;
                zero = new_WindingComponentData\<lparr>m_triangles := [i0, i1, i2, i3, i4, i5]\<rparr>
            in \<lparr>builder_hoard = [(winding_offset, zero)], builder_points = points,
                builder_failed = m_triangulation_failed T\<rparr>)
      else \<lparr>builder_hoard = hoard, builder_points = points,
             builder_failed = m_triangulation_failed T\<rparr>)"

definition new_builder :: "glu \<Rightarrow> SubPath \<Rightarrow> builder option" where
  "new_builder g P =
     (let (winding_offset, path, points) =
            generate_path g P (new_PointHoard (m_bounds_min P) (m_bounds_max P))
      in (case new_tesser g points path winding_offset [] of
            None \<Rightarrow> None
          | Some T \<Rightarrow> Some (builder_finish winding_offset T)))"

subsection \<open>\<open>builder::fill_indices\<close>\<close>

text \<open>
  The first loop: the numbers of indices in all (\<open>total\<close> in the source), of odd winding, of even winding
  other than zero, and of winding zero.
\<close>

fun count_indices ::
  "PerWindingComponentData \<Rightarrow> nat \<times> nat \<times> nat \<times> nat \<Rightarrow> nat \<times> nat \<times> nat \<times> nat" where
  "count_indices [] acc = acc"
| "count_indices ((winding, c) # H) (total_count, num_odd, num_even_non_zero, num_zero) =
     (let cnt = length (m_triangles c) in
      count_indices H
        (if winding = 0 then (total_count + cnt, num_odd, num_even_non_zero, num_zero + cnt)
         else if is_even winding then (total_count + cnt, num_odd, num_even_non_zero + cnt, num_zero)
         else (total_count + cnt, num_odd + cnt, num_even_non_zero, num_zero)))"

text \<open>\<open>std::vector::resize\<close>: new elements are zero.\<close>

definition resize :: "nat list \<Rightarrow> nat \<Rightarrow> nat list" where
  "resize xs n = take n xs @ replicate (n - length xs) 0"

text \<open>
  \<open>TriangleList::fill_at\<close> copies the indices to \<open>dest\<close> from \<open>offset\<close> on; the model
  returns the new offset, the array written and the sub-range, a pair of the first
  position and the length.  \<open>None\<close> is a write beyond the end of \<open>dest\<close>.
\<close>

definition fill_at :: "nat list \<Rightarrow> nat \<Rightarrow> nat list \<Rightarrow> (nat \<times> nat list \<times> nat \<times> nat) option" where
  "fill_at tri offset dest =
     (if length tri + offset \<le> length dest
      then Some (offset + length tri,
                 take offset dest @ tri @ drop (offset + length tri) dest,
                 (offset, length tri))
      else None)"

text \<open>
  A \<open>std::map\<close> with keys of type \<open>int\<close> is the list of its entries in increasing
  order of the keys; \<open>map_assign\<close> is the assignment \<open>m[k] = v\<close>.
\<close>

fun map_assign :: "int \<Rightarrow> 'v \<Rightarrow> (int \<times> 'v) list \<Rightarrow> (int \<times> 'v) list" where
  "map_assign k v [] = [(k, v)]"
| "map_assign k v ((k', v') # m) =
     (if k = k' then (k, v) # m
      else if k < k' then (k, v) # (k', v') # m
      else (k', v') # map_assign k v m)"

text \<open>The second loop, with the three cursors, the index array and the winding map.\<close>

fun fill_loop ::
  "PerWindingComponentData \<Rightarrow> nat \<times> nat \<times> nat \<times> nat list \<times> (int \<times> nat \<times> nat) list
     \<Rightarrow> (nat \<times> nat \<times> nat \<times> nat list \<times> (int \<times> nat \<times> nat) list) option" where
  "fill_loop [] st = Some st"
| "fill_loop ((winding, c) # H) (current_odd, current_even_non_zero, current_zero, indices, winding_map) =
     (let tri = m_triangles c in
      if winding = 0
      then (if length tri > 0
            then (case fill_at tri current_zero indices of
                    None \<Rightarrow> None
                  | Some (offset, indices', sub_range) \<Rightarrow>
                      fill_loop H (current_odd, current_even_non_zero, offset, indices',
                                   map_assign winding sub_range winding_map))
            else fill_loop H (current_odd, current_even_non_zero, current_zero, indices, winding_map))
      else if is_even winding
      then (if length tri > 0
            then (case fill_at tri current_even_non_zero indices of
                    None \<Rightarrow> None
                  | Some (offset, indices', sub_range) \<Rightarrow>
                      fill_loop H (current_odd, offset, current_zero, indices',
                                   map_assign winding sub_range winding_map))
            else fill_loop H (current_odd, current_even_non_zero, current_zero, indices, winding_map))
      else (if length tri > 0
            then (case fill_at tri current_odd indices of
                    None \<Rightarrow> None
                  | Some (offset, indices', sub_range) \<Rightarrow>
                      fill_loop H (offset, current_even_non_zero, current_zero, indices',
                                   map_assign winding sub_range winding_map))
            else fill_loop H (current_odd, current_even_non_zero, current_zero, indices, winding_map)))"

text \<open>
  \<open>fill_indices\<close> returns the index array, the winding map, \<open>even_non_zero_start\<close> and
  \<open>zero_start\<close>.
\<close>

definition fill_indices ::
  "PerWindingComponentData \<Rightarrow> nat list \<Rightarrow> (int \<times> nat \<times> nat) list
     \<Rightarrow> (nat list \<times> (int \<times> nat \<times> nat) list \<times> nat \<times> nat) option" where
  "fill_indices hoard indices winding_map =
     (let (total_count, num_odd, num_even_non_zero, num_zero) = count_indices hoard (0, 0, 0, 0) in
      (case fill_loop hoard (0, num_odd, num_even_non_zero + num_odd, resize indices total_count, winding_map) of
         None \<Rightarrow> None
       | Some (current_odd, current_even_non_zero, current_zero, indices', winding_map') \<Rightarrow>
           Some (indices', winding_map', num_odd, current_odd + num_even_non_zero)))"

text \<open>
  The index lists of the components of one class of winding numbers (the odd ones,
  the even ones other than zero, and zero), in the order of the map: the notions the
  statement about \<open>fill_indices\<close> is phrased with.
\<close>

definition odd_indices :: "PerWindingComponentData \<Rightarrow> nat list" where
  "odd_indices H = concat (map (\<lambda>(w, c). if odd w then m_triangles c else []) H)"

definition even_non_zero_indices :: "PerWindingComponentData \<Rightarrow> nat list" where
  "even_non_zero_indices H =
     concat (map (\<lambda>(w, c). if even w \<and> w \<noteq> 0 then m_triangles c else []) H)"

definition zero_indices :: "PerWindingComponentData \<Rightarrow> nat list" where
  "zero_indices H = concat (map (\<lambda>(w, c). if w = 0 then m_triangles c else []) H)"

text \<open>
  The winding offset and the tesser of the constructor of a builder, and the six
  corners whose vertices the constructor takes for the two triangles of the bounding
  rectangle.
\<close>

definition builder_winding_offset :: "glu \<Rightarrow> SubPath \<Rightarrow> int" where
  "builder_winding_offset g P =
     fst (generate_path g P (new_PointHoard (m_bounds_min P) (m_bounds_max P)))"

definition builder_tesser :: "glu \<Rightarrow> SubPath \<Rightarrow> tesser option" where
  "builder_tesser g P =
     (let (winding_offset, path, points) =
            generate_path g P (new_PointHoard (m_bounds_min P) (m_bounds_max P))
      in new_tesser g points path winding_offset [])"

definition rectangle_corners :: "(bool \<times> bool) list" where
  "rectangle_corners =
     [(True, True), (True, False), (False, False), (True, True), (False, False), (False, True)]"

text \<open>
  The corner of the bounding box of a SubPath: \<open>is_max_x\<close> and \<open>is_max_y\<close> choose the
  coordinates of \<open>m_bounds_max\<close> over those of \<open>m_bounds_min\<close>.
\<close>

definition bounds_corner :: "SubPath \<Rightarrow> bool \<Rightarrow> bool \<Rightarrow> dvec2" where
  "bounds_corner P is_max_x is_max_y =
     (if is_max_x then fst (m_bounds_max P) else fst (m_bounds_min P),
      if is_max_y then snd (m_bounds_max P) else snd (m_bounds_min P))"

text \<open>The vertices of a list of corners, fetched one after the other.\<close>

fun fetch_corners :: "(bool \<times> bool) list \<Rightarrow> PointHoard \<Rightarrow> nat list \<times> PointHoard" where
  "fetch_corners [] h = ([], h)"
| "fetch_corners ((mx, my) # cs) h =
     (let (i, h') = fetch_corner mx my h; (is, h'') = fetch_corners cs h' in (i # is, h''))"

text \<open>
  A triangulator that makes no callback, and a SubPath of one square contour.
\<close>

definition silent_glu :: glu where
  "silent_glu =
     \<lparr>nullptr_CLIENT_ID = 2 ^ 32 - 1, t_sqrt = sqrt,
      scaled = (\<lambda>p. (\<lfloor>fst p\<rfloor>, \<lfloor>snd p\<rfloor>)), callbacks = (\<lambda>sent. [])\<rparr>"

definition square_contour :: SubContour where
  "square_contour =
     [\<lparr>position = (1000, 1000), flags = 0\<rparr>, \<lparr>position = (5000, 1000), flags = 0\<rparr>,
      \<lparr>position = (5000, 4000), flags = 0\<rparr>, \<lparr>position = (1000, 4000), flags = 0\<rparr>]"

definition square_path :: SubPath where
  "square_path =
     \<lparr>m_bounds_min = (0, 0), m_bounds_max = (2 ^ 24, 2 ^ 24), m_contours = [square_contour],
      m_num_points = 4\<rparr>"

text \<open>
  The point tables that \<open>generate_path\<close> builds for \<open>square_path\<close>, and the tesser of
  its builder before the first callback.
\<close>

definition square_hoard :: PointHoard where
  "square_hoard =
     \<lparr>m_map = [(1001, 1001) \<mapsto> 0, (5001, 1001) \<mapsto> 1, (5001, 4001) \<mapsto> 2, (1001, 4001) \<mapsto> 3],
      m_ipts = [(1001, 1001), (5001, 1001), (5001, 4001), (1001, 4001)],
      m_pts = [(1000, 1000), (5000, 1000), (5000, 4000), (1000, 4000)],
      bounds_min = (0, 0), bounds_max = (2 ^ 24, 2 ^ 24)\<rparr>"

definition square_tesser :: tesser where
  "square_tesser =
     \<lparr>m_point_count = 4, m_points = square_hoard, m_temp_verts = [0, 0, 0],
      m_temp_vert_count = 3, m_triangulation_failed = False, m_current_winding = 0,
      m_winding_offset = 0, m_current_indices = None, m_hoard = []\<rparr>"

definition square_vertices :: Contour where
  "square_vertices = contour_of [0, 1, 2, 3]"

text \<open>
  A SubPath whose box is the whole grid and whose one contour is the single point
  \<open>(1/4, 1/2)\<close>, in the cell of the grid at the corner \<open>(min, min)\<close> of the box.
\<close>

definition near_corner_path :: SubPath where
  "near_corner_path =
     \<lparr>m_bounds_min = (0, 0), m_bounds_max = (2 ^ 24, 2 ^ 24),
      m_contours = [[\<lparr>position = (1 / 4, 1 / 2), flags = 0\<rparr>]], m_num_points = 1\<rparr>"

text \<open>
  The triangulator \<open>silent_glu\<close> with the square root of doubles, and a tesser at the
  start of a group of three vertices whose point tables hold the three points
  \<open>(1, 1)\<close>, \<open>(10240000, 401)\<close> and \<open>(10214400, 528)\<close> of the grid.
\<close>

definition double_glu :: glu where
  "double_glu = silent_glu\<lparr>t_sqrt := double_sqrt\<rparr>"

definition sliver_hoard :: PointHoard where
  "sliver_hoard =
     \<lparr>m_map = [(1, 1) \<mapsto> 0, (10240000, 401) \<mapsto> 1, (10214400, 528) \<mapsto> 2],
      m_ipts = [(1, 1), (10240000, 401), (10214400, 528)],
      m_pts = [(0, 0), (10239999, 400), (10214399, 527)],
      bounds_min = (0, 0), bounds_max = (2 ^ 24, 2 ^ 24)\<rparr>"

definition sliver_tesser :: tesser where
  "sliver_tesser =
     \<lparr>m_point_count = 3, m_points = sliver_hoard, m_temp_verts = [0, 0, 0],
      m_temp_vert_count = 0, m_triangulation_failed = False, m_current_winding = 0,
      m_winding_offset = 0, m_current_indices = Some 0,
      m_hoard = [(0, new_WindingComponentData)]\<rparr>"


section \<open>The tree of subsets\<close>

subsection \<open>Attribute data\<close>

text \<open>
  The members of a \<open>FillAttributeDataFiller\<close>.  A \<open>c_array\<close> into \<open>m_indices\<close> is the
  pair of its first position and its length.  The points are the vector \<open>m_points\<close>
  of the source (the vector the PointHoard of the builder appends to); the field is
  called \<open>filler_points\<close> to keep it apart from the tesser's.
\<close>

record FillAttributeDataFiller =
  filler_points :: "dvec2 list"
  m_indices :: "nat list"
  m_nonzero_winding_indices :: "nat \<times> nat"
  m_zero_winding_indices :: "nat \<times> nat"
  m_odd_winding_indices :: "nat \<times> nat"
  m_even_winding_indices :: "nat \<times> nat"
  m_per_fill :: "(int \<times> nat \<times> nat) list"

text \<open>
  \<open>PainterAttributeData\<close> is outside the repository's files.  Its values are of a type
  \<open>'pd\<close>, and what the subsets do with them are parameters of the model: \<open>set_data\<close>
  for a fill filler, for an edge filler (made from the winding numbers, the points
  and the builder) and for the two mergers of the data of two children, a fresh
  object, and the two sizes read from an object.
\<close>

record 'pd painter =
  set_data_fill :: "FillAttributeDataFiller \<Rightarrow> 'pd"
  set_data_edges :: "int list \<Rightarrow> dvec2 list \<Rightarrow> builder \<Rightarrow> 'pd"
  set_data_merged_fill :: "'pd \<Rightarrow> 'pd \<Rightarrow> 'pd"
  set_data_merged_edges :: "'pd \<Rightarrow> 'pd \<Rightarrow> 'pd"
  new_PainterAttributeData :: 'pd
  largest_attribute_chunk :: "'pd \<Rightarrow> nat"
  largest_index_chunk :: "'pd \<Rightarrow> nat"

subsection \<open>SubsetPrivate\<close>

text \<open>
  The members of a \<open>SubsetPrivate\<close> other than its children; a pointer that may be
  null is an \<open>option\<close>.  A subset owns its children, so the tree of subsets is a value:
  a subset is its members and, when it has children, the pair of them.
\<close>

record 'pd subset_members =
  m_ID :: nat
  m_bounds :: "dvec2 \<times> dvec2"
  m_painter_data :: "'pd option"
  m_winding_numbers :: "int list"
  m_fuzz_painter_data :: "'pd option"
  m_sizes_ready :: bool
  m_num_attributes :: nat
  m_largest_index_block :: nat
  m_aa_largest_attribute_block :: nat
  m_aa_largest_index_block :: nat
  m_sub_path :: "SubPath option"
  m_splitting_coordinate :: int

datatype 'pd SubsetPrivate =
  SubsetPrivate (members: "'pd subset_members")
    (m_children: "('pd SubsetPrivate \<times> 'pd SubsetPrivate) option")

subsection \<open>\<open>merge_winding_lists\<close>\<close>

text \<open>
  A \<open>std::set<int>\<close> is the list of its elements in increasing order; \<open>set_insert\<close> is
  its \<open>insert\<close>.  \<open>merge_winding_lists\<close> inserts both arrays into an empty set and
  overwrites \<open>out\<close> with the elements of the set.
\<close>

fun set_insert :: "int \<Rightarrow> int list \<Rightarrow> int list" where
  "set_insert x [] = [x]"
| "set_insert x (y # ys) =
     (if x = y then y # ys else if x < y then x # y # ys else y # set_insert x ys)"

definition merge_winding_lists :: "int list \<Rightarrow> int list \<Rightarrow> int list" where
  "merge_winding_lists inA inB = fold set_insert inB (fold set_insert inA [])"

subsection \<open>\<open>make_ready\<close>\<close>

text \<open>
  \<open>make_ready_from_sub_path\<close> for the SubPath \<open>sp\<close> the subset holds.  \<open>None\<close> is a
  construction of the builder that does not complete.  The two sizes of the fuzz
  data are assigned only when there are winding numbers.
\<close>

definition make_ready_from_sub_path ::
  "glu \<Rightarrow> 'pd painter \<Rightarrow> SubPath \<Rightarrow> 'pd subset_members \<Rightarrow> 'pd subset_members option" where
  "make_ready_from_sub_path g pa sp m =
     (case new_builder g sp of
        None \<Rightarrow> None
      | Some B \<Rightarrow>
          (case fill_indices (builder_hoard B) [] [] of
             None \<Rightarrow> None
           | Some (indices, per_fill, even_non_zero_start, zero_start) \<Rightarrow>
               (let filler =
                      \<lparr>filler_points = m_pts (builder_points B), m_indices = indices,
                       m_nonzero_winding_indices = (0, zero_start),
                       m_zero_winding_indices = (zero_start, length indices - zero_start),
                       m_odd_winding_indices = (0, even_non_zero_start),
                       m_even_winding_indices =
                         (even_non_zero_start, length indices - even_non_zero_start),
                       m_per_fill = per_fill\<rparr>;
                    m1 = max (snd (m_nonzero_winding_indices filler))
                             (snd (m_zero_winding_indices filler));
                    m2 = max (snd (m_odd_winding_indices filler))
                             (snd (m_even_winding_indices filler));
                    winding_numbers = m_winding_numbers m @ map fst (m_per_fill filler);
                    fuzz = (if winding_numbers \<noteq> []
                            then set_data_edges pa winding_numbers (filler_points filler) B
                            else new_PainterAttributeData pa)
                in Some (m\<lparr>m_sizes_ready := True,
                           m_largest_index_block := max m1 m2,
                           m_num_attributes := length (filler_points filler),
                           m_winding_numbers := winding_numbers,
                           m_painter_data := Some (set_data_fill pa filler),
                           m_fuzz_painter_data := Some fuzz,
                           m_aa_largest_attribute_block :=
                             (if winding_numbers \<noteq> [] then largest_attribute_chunk pa fuzz
                              else m_aa_largest_attribute_block m),
                           m_aa_largest_index_block :=
                             (if winding_numbers \<noteq> [] then largest_index_chunk pa fuzz
                              else m_aa_largest_index_block m),
                           m_sub_path := None\<rparr>))))"

text \<open>
  The part of \<open>make_ready_from_children\<close> after the two calls of \<open>make_ready\<close>, on the
  members of the subset and the two children made ready.  \<open>None\<close> is a child whose
  data is a null pointer.
\<close>

definition merge_children ::
  "'pd painter \<Rightarrow> 'pd subset_members \<Rightarrow> 'pd SubsetPrivate \<Rightarrow> 'pd SubsetPrivate
     \<Rightarrow> 'pd subset_members option" where
  "merge_children pa m c0 c1 =
     (case (m_painter_data (members c0), m_painter_data (members c1),
            m_fuzz_painter_data (members c0), m_fuzz_painter_data (members c1)) of
        (Some a, Some b, Some fa, Some fb) \<Rightarrow>
          (let painter_data = set_data_merged_fill pa a b;
               fuzz = set_data_merged_edges pa fa fb
           in Some (m\<lparr>m_painter_data := Some painter_data,
                      m_winding_numbers :=
                        merge_winding_lists (m_winding_numbers (members c0))
                          (m_winding_numbers (members c1)),
                      m_fuzz_painter_data := Some fuzz,
                      m_sizes_ready := True,
                      m_num_attributes := largest_attribute_chunk pa painter_data,
                      m_largest_index_block := largest_index_chunk pa painter_data,
                      m_aa_largest_attribute_block := largest_attribute_chunk pa fuzz,
                      m_aa_largest_index_block := largest_index_chunk pa fuzz\<rparr>))
      | _ \<Rightarrow> None)"

text \<open>
  \<open>make_ready\<close>; the branch without a SubPath is \<open>make_ready_from_children\<close>, which
  dereferences the children.  The result is the subset after the call.
\<close>

fun make_ready :: "glu \<Rightarrow> 'pd painter \<Rightarrow> 'pd SubsetPrivate \<Rightarrow> 'pd SubsetPrivate option" where
  "make_ready g pa (SubsetPrivate m ch) =
     (if m_painter_data m = None
      then (case m_sub_path m of
              Some sp \<Rightarrow>
                map_option (\<lambda>m'. SubsetPrivate m' ch) (make_ready_from_sub_path g pa sp m)
            | None \<Rightarrow>
                (case ch of
                   None \<Rightarrow> None
                 | Some (c0, c1) \<Rightarrow>
                     (case make_ready g pa c0 of
                        None \<Rightarrow> None
                      | Some c0' \<Rightarrow>
                          (case make_ready g pa c1 of
                             None \<Rightarrow> None
                           | Some c1' \<Rightarrow>
                               map_option (\<lambda>m'. SubsetPrivate m' (Some (c0', c1')))
                                 (merge_children pa m c0' c1')))))
      else Some (SubsetPrivate m ch))"

subsection \<open>The subsets of a FilledPath\<close>

text \<open>
  The ids of the subsets of a tree, the subset first and then its children in order:
  this is the order in which the constructor appends the subsets to \<open>m_subsets\<close>.
\<close>

fun ids_of :: "'pd SubsetPrivate \<Rightarrow> nat list" where
  "ids_of (SubsetPrivate m None) = [m_ID m]"
| "ids_of (SubsetPrivate m (Some (c0, c1))) = m_ID m # ids_of c0 @ ids_of c1"

text \<open>
  \<open>FilledPath::subset\<close> calls \<open>make_ready\<close> on \<open>m_subsets[I]\<close>, a pointer into the tree,
  and returns a handle to that subset.  The model looks the subset with the id \<open>I\<close> up
  in the tree and returns the tree after the call and the subset the handle refers
  to; \<open>None\<close> is also an id that the tree does not have.
\<close>

fun subset_at ::
  "glu \<Rightarrow> 'pd painter \<Rightarrow> nat \<Rightarrow> 'pd SubsetPrivate
     \<Rightarrow> ('pd SubsetPrivate \<times> 'pd SubsetPrivate) option" where
  "subset_at g pa I (SubsetPrivate m ch) =
     (if m_ID m = I
      then map_option (\<lambda>p. (p, p)) (make_ready g pa (SubsetPrivate m ch))
      else (case ch of
              None \<Rightarrow> None
            | Some (c0, c1) \<Rightarrow>
                (if I \<in> set (ids_of c0)
                 then map_option (\<lambda>(c0', p). (SubsetPrivate m (Some (c0', c1)), p))
                        (subset_at g pa I c0)
                 else map_option (\<lambda>(c1', p). (SubsetPrivate m (Some (c0, c1')), p))
                        (subset_at g pa I c1))))"


subsection \<open>The constructor\<close>

definition recursion_depth :: nat where
  "recursion_depth = 12"

definition points_per_subset :: nat where
  "points_per_subset = 64"

text \<open>
  The members after the initialiser list of the constructor, for the subset that is
  given the id \<open>n\<close>.  The four sizes are not initialised by the source; they are 0
  here, and nothing reads them while \<open>m_sizes_ready\<close> is false.
\<close>

definition new_members :: "nat \<Rightarrow> SubPath \<Rightarrow> 'pd subset_members" where
  "new_members n Q =
     \<lparr>m_ID = n, m_bounds = (m_bounds_min Q, m_bounds_max Q), m_painter_data = None,
      m_winding_numbers = [], m_fuzz_painter_data = None, m_sizes_ready = False,
      m_num_attributes = 0, m_largest_index_block = 0, m_aa_largest_attribute_block = 0,
      m_aa_largest_index_block = 0, m_sub_path = Some Q, m_splitting_coordinate = - 1\<rparr>"

text \<open>
  The constructor of \<open>SubsetPrivate\<close>.  \<open>out_values\<close> is only appended to, and the
  constructor reads its size only: the model takes the size \<open>n\<close> and returns the size
  afterwards, and \<open>ids_of\<close> lists the subsets in the order in which they are appended.
  \<open>SubPath::split\<close> is the parameter \<open>split\<close>, which returns the two halves and the
  splitting coordinate.
\<close>

fun new_SubsetPrivate ::
  "(SubPath \<Rightarrow> SubPath \<times> SubPath \<times> int) \<Rightarrow> SubPath \<Rightarrow> nat \<Rightarrow> nat \<Rightarrow> 'pd SubsetPrivate \<times> nat" where
  "new_SubsetPrivate split Q 0 n = (SubsetPrivate (new_members n Q) None, Suc n)"
| "new_SubsetPrivate split Q (Suc max_recursion) n =
     (if m_num_points Q > points_per_subset
      then (let (C0, C1, coordinate) = split Q in
            if m_num_points C0 < m_num_points Q \<or> m_num_points C1 < m_num_points Q
            then (let (c0, n0) = new_SubsetPrivate split C0 max_recursion (Suc n);
                      (c1, n1) = new_SubsetPrivate split C1 max_recursion n0
                  in (SubsetPrivate
                        ((new_members n Q)\<lparr>m_sub_path := None,
                                            m_splitting_coordinate := coordinate\<rparr>)
                        (Some (c0, c1)), n1))
            else (SubsetPrivate ((new_members n Q)\<lparr>m_splitting_coordinate := coordinate\<rparr>) None,
                  Suc n))
      else (SubsetPrivate (new_members n Q) None, Suc n))"

definition create_root_subset ::
  "(SubPath \<Rightarrow> SubPath \<times> SubPath \<times> int) \<Rightarrow> SubPath \<Rightarrow> 'pd SubsetPrivate" where
  "create_root_subset split P = fst (new_SubsetPrivate split P recursion_depth 0)"

definition number_subsets :: "'pd SubsetPrivate \<Rightarrow> nat" where
  "number_subsets m_root = length (ids_of m_root)"

subsection \<open>\<open>select_subsets\<close>\<close>

definition ready_sizes_from_children ::
  "'pd subset_members \<Rightarrow> 'pd SubsetPrivate \<Rightarrow> 'pd SubsetPrivate \<Rightarrow> 'pd subset_members" where
  "ready_sizes_from_children m c0 c1 =
     m\<lparr>m_sizes_ready := True,
       m_num_attributes := m_num_attributes (members c0) + m_num_attributes (members c1),
       m_largest_index_block :=
         m_largest_index_block (members c0) + m_largest_index_block (members c1),
       m_aa_largest_attribute_block :=
         m_aa_largest_attribute_block (members c0) + m_aa_largest_attribute_block (members c1),
       m_aa_largest_index_block :=
         m_aa_largest_index_block (members c0) + m_aa_largest_index_block (members c1)\<rparr>"

text \<open>
  \<open>select_subsets_all_unculled\<close> on a subset, with the array \<open>dst\<close> and the counter
  \<open>current\<close>; it returns the subset, the array and the counter afterwards.  \<open>None\<close> is
  a builder that does not complete, or a write beyond the end of \<open>dst\<close>.  The last
  branch of the source is an assertion only: a subset without children that does not
  fit writes nothing.
\<close>

fun select_subsets_all_unculled ::
  "glu \<Rightarrow> 'pd painter \<Rightarrow> nat \<Rightarrow> nat \<Rightarrow> 'pd SubsetPrivate \<Rightarrow> nat list \<times> nat
     \<Rightarrow> ('pd SubsetPrivate \<times> nat list \<times> nat) option" where
  "select_subsets_all_unculled g pa max_attribute_cnt max_index_cnt (SubsetPrivate m ch)
       (dst, current) =
     (case (if \<not> m_sizes_ready m \<and> ch = None \<and> m_sub_path m \<noteq> None
            then make_ready_from_sub_path g pa (the (m_sub_path m)) m
            else Some m) of
        None \<Rightarrow> None
      | Some m' \<Rightarrow>
          (if m_sizes_ready m'
              \<and> m_num_attributes m' \<le> max_attribute_cnt
              \<and> m_largest_index_block m' \<le> max_index_cnt
              \<and> m_aa_largest_attribute_block m' \<le> max_attribute_cnt
              \<and> m_aa_largest_index_block m' \<le> max_index_cnt
           then (if current < length dst
                 then Some (SubsetPrivate m' ch, dst[current := m_ID m'], current + 1)
                 else None)
           else (case ch of
                   Some (c0, c1) \<Rightarrow>
                     (case select_subsets_all_unculled g pa max_attribute_cnt max_index_cnt c0
                             (dst, current) of
                        None \<Rightarrow> None
                      | Some (c0', dst0, current0) \<Rightarrow>
                          (case select_subsets_all_unculled g pa max_attribute_cnt max_index_cnt
                                  c1 (dst0, current0) of
                             None \<Rightarrow> None
                           | Some (c1', dst1, current1) \<Rightarrow>
                               Some (SubsetPrivate
                                       (if \<not> m_sizes_ready m'
                                        then ready_sizes_from_children m' c0' c1' else m')
                                       (Some (c0', c1')),
                                     dst1, current1)))
                 | None \<Rightarrow> Some (SubsetPrivate m' ch, dst, current))))"

text \<open>
  \<open>select_subsets_implement\<close>.  \<open>clip_against_planes\<close> is outside the repository's
  files: the parameter \<open>clip\<close> gives, for the bounding box of a subset, whether the
  box is unclipped and whether the clipped rectangle is empty.
\<close>

fun select_subsets_implement ::
  "glu \<Rightarrow> 'pd painter \<Rightarrow> (dvec2 \<times> dvec2 \<Rightarrow> bool \<times> bool) \<Rightarrow> nat \<Rightarrow> nat \<Rightarrow> 'pd SubsetPrivate
     \<Rightarrow> nat list \<times> nat \<Rightarrow> ('pd SubsetPrivate \<times> nat list \<times> nat) option" where
  "select_subsets_implement g pa clip max_attribute_cnt max_index_cnt (SubsetPrivate m ch)
       (dst, current) =
     (let (unclipped, clipped_rect_empty) = clip (m_bounds m) in
      if clipped_rect_empty then Some (SubsetPrivate m ch, dst, current)
      else if unclipped \<or> ch = None
      then select_subsets_all_unculled g pa max_attribute_cnt max_index_cnt (SubsetPrivate m ch)
             (dst, current)
      else (case ch of
              None \<Rightarrow> None
            | Some (c0, c1) \<Rightarrow>
                (case select_subsets_implement g pa clip max_attribute_cnt max_index_cnt c0
                        (dst, current) of
                   None \<Rightarrow> None
                 | Some (c0', dst0, current0) \<Rightarrow>
                     (case select_subsets_implement g pa clip max_attribute_cnt max_index_cnt c1
                             (dst0, current0) of
                        None \<Rightarrow> None
                      | Some (c1', dst1, current1) \<Rightarrow>
                          Some (SubsetPrivate m (Some (c0', c1')), dst1, current1)))))"

text \<open>
  \<open>SubsetPrivate::select_subsets\<close>, called by \<open>FilledPath::select_subsets\<close> on the root:
  the counter starts at 0 and is the value returned.
\<close>

definition select_subsets ::
  "glu \<Rightarrow> 'pd painter \<Rightarrow> (dvec2 \<times> dvec2 \<Rightarrow> bool \<times> bool) \<Rightarrow> nat \<Rightarrow> nat \<Rightarrow> 'pd SubsetPrivate
     \<Rightarrow> nat list \<Rightarrow> ('pd SubsetPrivate \<times> nat list \<times> nat) option" where
  "select_subsets g pa clip max_attribute_cnt max_index_cnt m_root dst =
     select_subsets_implement g pa clip max_attribute_cnt max_index_cnt m_root (dst, 0)"

subsection \<open>The states of a FilledPath\<close>

text \<open>
  The trees that a FilledPath can hold: the tree made by the constructor, and the
  tree after a call of \<open>subset\<close> or of \<open>select_subsets\<close> on such a tree.
\<close>

inductive reachable ::
  "glu \<Rightarrow> 'pd painter \<Rightarrow> (SubPath \<Rightarrow> SubPath \<times> SubPath \<times> int) \<Rightarrow> SubPath \<Rightarrow> 'pd SubsetPrivate
     \<Rightarrow> bool"
  for g :: glu and pa :: "'pd painter" and split :: "SubPath \<Rightarrow> SubPath \<times> SubPath \<times> int"
    and P :: SubPath where
  created: "reachable g pa split P (create_root_subset split P)"
| after_subset:
    "reachable g pa split P t \<Longrightarrow> subset_at g pa I t = Some (t', p)
       \<Longrightarrow> reachable g pa split P t'"
| after_select_subsets:
    "reachable g pa split P t
       \<Longrightarrow> select_subsets g pa clip max_attribute_cnt max_index_cnt t dst = Some (t', dst', n)
       \<Longrightarrow> reachable g pa split P t'"

text \<open>
  The builders of the SubPaths that a tree still holds complete: the callbacks of the
  triangulator, a parameter of the model, all return.
\<close>

fun builders_complete :: "glu \<Rightarrow> 'pd SubsetPrivate \<Rightarrow> bool" where
  "builders_complete g (SubsetPrivate m ch) =
     ((case m_sub_path m of None \<Rightarrow> True | Some sp \<Rightarrow> new_builder g sp \<noteq> None)
      \<and> (case ch of
            None \<Rightarrow> True
          | Some (c0, c1) \<Rightarrow> builders_complete g c0 \<and> builders_complete g c1))"

subsection \<open>Ancestry and winding numbers\<close>

text \<open>
  The pairs \<open>(a, b)\<close> of ids where the subset \<open>a\<close> is an ancestor of the subset \<open>b\<close>, and
  the ids of the subtree below the subset with the id \<open>a\<close>.
\<close>

fun ancestry :: "'pd SubsetPrivate \<Rightarrow> (nat \<times> nat) list" where
  "ancestry (SubsetPrivate m None) = []"
| "ancestry (SubsetPrivate m (Some (c0, c1))) =
     map (Pair (m_ID m)) (ids_of c0 @ ids_of c1) @ ancestry c0 @ ancestry c1"

fun subtree_ids :: "'pd SubsetPrivate \<Rightarrow> nat \<Rightarrow> nat list" where
  "subtree_ids (SubsetPrivate m ch) a =
     (if m_ID m = a then ids_of (SubsetPrivate m ch)
      else (case ch of
              None \<Rightarrow> []
            | Some (c0, c1) \<Rightarrow> subtree_ids c0 a @ subtree_ids c1 a))"

text \<open>The winding numbers of the leaves below a subset, from left to right.\<close>

fun leaf_windings :: "'pd SubsetPrivate \<Rightarrow> int list" where
  "leaf_windings (SubsetPrivate m None) = m_winding_numbers m"
| "leaf_windings (SubsetPrivate m (Some (c0, c1))) = leaf_windings c0 @ leaf_windings c1"

text \<open>
  The winding numbers of a subset with children are, in strictly increasing order,
  those of its two children, and those of the leaves below it; and the same in the
  two children.
\<close>

fun winding_union :: "'pd SubsetPrivate \<Rightarrow> bool" where
  "winding_union (SubsetPrivate m None) = True"
| "winding_union (SubsetPrivate m (Some (c0, c1))) =
     (sorted_wrt (<) (m_winding_numbers m)
      \<and> set (m_winding_numbers m)
          = set (m_winding_numbers (members c0)) \<union> set (m_winding_numbers (members c1))
      \<and> set (m_winding_numbers m) = set (leaf_windings c0) \<union> set (leaf_windings c1)
      \<and> winding_union c0 \<and> winding_union c1)"

text \<open>
  What the members of a tree keep between the calls: a subset without children holds
  its SubPath until its data is made, a subset with children has no SubPath, and
  when it has its data so have the children, and its winding numbers are theirs
  merged.
\<close>

fun tree_inv :: "'pd SubsetPrivate \<Rightarrow> bool" where
  "tree_inv (SubsetPrivate m None) =
     (if m_painter_data m = None then m_sub_path m \<noteq> None \<and> \<not> m_sizes_ready m
      else m_sub_path m = None \<and> m_fuzz_painter_data m \<noteq> None \<and> m_sizes_ready m)"
| "tree_inv (SubsetPrivate m (Some (c0, c1))) =
     (m_sub_path m = None \<and> tree_inv c0 \<and> tree_inv c1
      \<and> (m_painter_data m \<noteq> None \<longrightarrow>
            m_fuzz_painter_data m \<noteq> None
          \<and> m_painter_data (members c0) \<noteq> None \<and> m_painter_data (members c1) \<noteq> None
          \<and> m_winding_numbers m
              = merge_winding_lists (m_winding_numbers (members c0))
                  (m_winding_numbers (members c1))))"

text \<open>
  What a call on a tree keeps: the ids, the ancestry and the subtrees; and, at a subset
  that has its data, the data and the winding numbers.
\<close>

definition same_ids :: "'pd SubsetPrivate \<Rightarrow> 'pd SubsetPrivate \<Rightarrow> bool" where
  "same_ids t t' =
     (m_ID (members t') = m_ID (members t) \<and> ids_of t' = ids_of t \<and> ancestry t' = ancestry t
      \<and> subtree_ids t' = subtree_ids t)"

definition keeps_data :: "'pd SubsetPrivate \<Rightarrow> 'pd SubsetPrivate \<Rightarrow> bool" where
  "keeps_data t t' =
     (m_painter_data (members t) \<noteq> None \<longrightarrow>
        m_painter_data (members t') = m_painter_data (members t)
      \<and> m_winding_numbers (members t') = m_winding_numbers (members t))"

text \<open>
  What a call of \<open>select_subsets\<close> on the tree \<open>t\<close> with the array \<open>dst\<close> and the counter
  \<open>cur\<close> gives, when it ends with the tree \<open>t'\<close>, the array \<open>dst'\<close> and the counter \<open>n\<close>:
  the ids written are the entries of \<open>dst'\<close> from \<open>cur\<close> up to \<open>n\<close>, the rest of the
  array is as before, and the ids written are distinct ids of the tree, no more than
  the tree has, none the ancestor of another.
\<close>

definition select_ok ::
  "glu \<Rightarrow> 'pd SubsetPrivate \<Rightarrow> nat list \<Rightarrow> nat \<Rightarrow> 'pd SubsetPrivate \<Rightarrow> nat list \<Rightarrow> nat \<Rightarrow> bool" where
  "select_ok g t dst cur t' dst' n =
     (tree_inv t' \<and> same_ids t t' \<and> keeps_data t t'
      \<and> (builders_complete g t \<longrightarrow> builders_complete g t')
      \<and> length dst' = length dst
      \<and> (\<exists>new. n = cur + length new \<and> n \<le> length dst
             \<and> dst' = take cur dst @ new @ drop n dst
             \<and> set new \<subseteq> set (ids_of t) \<and> distinct new \<and> length new \<le> length (ids_of t)
             \<and> (\<forall>a\<in>set new. \<forall>b\<in>set new. (a, b) \<notin> set (ancestry t))))"


subsection \<open>A tree of three subsets\<close>

text \<open>
  Attribute data that is a list of numbers: the data of a fill filler is its index
  buffer, the data of an edge filler is empty, merging is appending and the size of a
  chunk is the length of the list.  \<open>wide_path\<close> is \<open>square_path\<close> declared with 65
  points, and \<open>halves\<close> splits every SubPath into \<open>square_path\<close> twice: the tree of
  \<open>wide_path\<close> is a subset with two children that hold \<open>square_path\<close>.
\<close>

definition list_painter :: "nat list painter" where
  "list_painter =
     \<lparr>set_data_fill = m_indices, set_data_edges = (\<lambda>winding_numbers pts B. []),
      set_data_merged_fill = (\<lambda>a b. a @ b), set_data_merged_edges = (\<lambda>a b. a @ b),
      new_PainterAttributeData = [], largest_attribute_chunk = length,
      largest_index_chunk = length\<rparr>"

definition halves :: "SubPath \<Rightarrow> SubPath \<times> SubPath \<times> int" where
  "halves Q = (square_path, square_path, 0)"

definition wide_path :: SubPath where
  "wide_path = square_path\<lparr>m_num_points := 65\<rparr>"

definition example_tree :: "nat list SubsetPrivate" where
  "example_tree = create_root_subset halves wide_path"

text \<open>
  The tree that the constructor makes for \<open>wide_path\<close> (lemma \<open>example_tree_eq\<close>): the
  members of its root and its two children.
\<close>

definition example_root :: "nat list subset_members" where
  "example_root = (new_members 0 wide_path)\<lparr>m_sub_path := None, m_splitting_coordinate := 0\<rparr>"

definition first_leaf :: "nat list SubsetPrivate" where
  "first_leaf = SubsetPrivate (new_members 1 square_path) None"

definition second_leaf :: "nat list SubsetPrivate" where
  "second_leaf = SubsetPrivate (new_members 2 square_path) None"

text \<open>
  The members of a child after \<open>make_ready_from_sub_path\<close>, the tree after \<open>make_ready\<close>
  on the root, and the tree after \<open>select_subsets\<close> has selected the two children.
\<close>

definition ready_members :: "nat \<Rightarrow> nat list subset_members" where
  "ready_members n =
     (new_members n square_path)
       \<lparr>m_sizes_ready := True, m_largest_index_block := 6, m_num_attributes := 8,
        m_winding_numbers := [0], m_painter_data := Some [4, 5, 6, 4, 6, 7],
        m_fuzz_painter_data := Some [], m_sub_path := None\<rparr>"

definition first_ready :: "nat list SubsetPrivate" where
  "first_ready = SubsetPrivate (ready_members 1) None"

definition second_ready :: "nat list SubsetPrivate" where
  "second_ready = SubsetPrivate (ready_members 2) None"

definition ready_root :: "nat list subset_members" where
  "ready_root =
     example_root
       \<lparr>m_painter_data := Some [4, 5, 6, 4, 6, 7, 4, 5, 6, 4, 6, 7],
        m_winding_numbers := [0], m_fuzz_painter_data := Some [], m_sizes_ready := True,
        m_num_attributes := 12, m_largest_index_block := 12\<rparr>"

definition ready_tree :: "nat list SubsetPrivate" where
  "ready_tree = SubsetPrivate ready_root (Some (first_ready, second_ready))"




chapter \<open>Properties\<close>

section \<open>Properties of \<open>reduce_contour\<close>\<close>

lemma length_steps [simp]: "length (steps prev qs) = length qs"
  by (induction qs arbitrary: prev) auto













lemma reduce_contour_small: "length C \<le> 2 \<Longrightarrow> reduce_contour C = ([], 0)"
  by (simp add: reduce_contour_def)


lemma corner_values [simp]:
  "corner 5 = corner_minx_miny" "corner 9 = corner_minx_maxy"
  "corner 10 = corner_maxx_maxy" "corner 6 = corner_maxx_miny" "corner 0 = not_corner"
  by (simp_all add: corner_def on_min_x_boundary_def on_max_x_boundary_def
      on_min_y_boundary_def on_max_y_boundary_def)




section \<open>Flags of the crossing points of \<open>split_contour\<close>\<close>

lemma split_step_append:
  "split_step c s p q (A0 @ B0, A1 @ B1)
     = (A0 @ fst (split_step c s p q (B0, B1)), A1 @ snd (split_step c s p q (B0, B1)))"
  by (simp add: split_step_def Let_def)

lemma split_step_acc:
  "split_step c s p q acc
     = (fst acc @ fst (split_step c s p q ([], [])), snd acc @ snd (split_step c s p q ([], [])))"
  using split_step_append [of c s p q "fst acc" "[]" "snd acc" "[]"] by simp

lemma split_loop_concat:
  "split_loop c s prev src acc =
     (fst acc @ concat (map (\<lambda>(p, q). fst (split_step c s p q ([], []))) (zip (prev # butlast src) src)),
      snd acc @ concat (map (\<lambda>(p, q). snd (split_step c s p q ([], []))) (zip (prev # butlast src) src)))"
proof (induction src arbitrary: prev acc)
  case Nil
  show ?case by simp
next
  case (Cons pt pts)
  note st = split_step_acc [of c s prev pt acc]
  show ?case
  proof (cases "pts = []")
    case True
    then show ?thesis by (simp add: st)
  next
    case False
    then show ?thesis
      using Cons.IH [of pt "split_step c s prev pt acc"] by (simp add: st)
  qed
qed

lemma zip_cyc_pred:
  "zip (last src # butlast src) src = map (\<lambda>i. (cyc_pred src i, src ! i)) [0..<length src]"
proof (rule nth_equalityI)
  show "length (zip (last src # butlast src) src) = length (map (\<lambda>i. (cyc_pred src i, src ! i)) [0..<length src])"
    by simp
next
  fix i
  assume "i < length (zip (last src # butlast src) src)"
  then have i: "i < length src" by simp
  then have ne: "src \<noteq> []" by auto
  have idx: "(i + length src - Suc 0) mod length src = (if i = 0 then length src - Suc 0 else i - Suc 0)"
    using i by (cases i) auto
  have "(last src # butlast src) ! i = cyc_pred src i"
    using i ne by (cases i) (simp_all add: cyc_pred_def idx last_conv_nth nth_butlast)
  with i show "zip (last src # butlast src) src ! i = map (\<lambda>i. (cyc_pred src i, src ! i)) [0..<length src] ! i"
    by simp
qed

lemma split_contour_concat:
  "split_contour src c s ([], []) =
     (concat (map (\<lambda>i. fst (split_step c s (cyc_pred src i) (src ! i) ([], []))) [0..<length src]),
      concat (map (\<lambda>i. snd (split_step c s (cyc_pred src i) (src ! i) ([], []))) [0..<length src]))"
  by (simp add: split_contour_def split_loop_concat zip_cyc_pred o_def)

lemma split_step_emits:
  "split_step c s prev_pt pt ([], []) =
       ((if (vec_get (position prev_pt) c \<le> s) \<noteq> (vec_get (position pt) c \<le> s)
         then [crossing_point prev_pt pt c s (max_flag c) (min_flag c)] else [])
        @ (if vec_get (position pt) c \<le> s then [pt] else []),
        (if (vec_get (position prev_pt) c \<ge> s) \<noteq> (vec_get (position pt) c \<ge> s)
         then [crossing_point prev_pt pt c s (min_flag c) (max_flag c)] else [])
        @ (if vec_get (position pt) c \<ge> s then [pt] else []))"
  by (simp add: split_step_def Let_def crossing_point_def min_flag_def max_flag_def ac_simps)

lemma split_step_rising:
  assumes "vec_get (position prev_pt) c < s" "s < vec_get (position pt) c"
  shows "split_step c s prev_pt pt ([], []) =
     ([crossing_point prev_pt pt c s (max_flag c) (min_flag c)],
      [crossing_point prev_pt pt c s (min_flag c) (max_flag c), pt])"
  using assms
  by (simp add: split_step_def Let_def crossing_point_def min_flag_def max_flag_def ac_simps)

lemma split_step_falling:
  assumes "vec_get (position pt) c < s" "s < vec_get (position prev_pt) c"
  shows "split_step c s prev_pt pt ([], []) =
     ([crossing_point prev_pt pt c s (max_flag c) (min_flag c), pt],
      [crossing_point prev_pt pt c s (min_flag c) (max_flag c)])"
  using assms
  by (simp add: split_step_def Let_def crossing_point_def min_flag_def max_flag_def ac_simps)

lemma spit_point_on_line:
  "c = 0 \<or> c = 1 \<Longrightarrow> vec_get (compute_spit_point a b c s) c = s"
  by (auto simp: compute_spit_point_def Let_def vec_get_def vec_set_def)

text \<open>
  Claim C1, as the code has it.  The result of \<open>split_contour\<close> is the concatenation,
  over the cyclically consecutive pairs of the contour in order, of what the loop body
  emits for the pair.  The body emits a crossing point into a half exactly when one
  point of the pair lies in that half (the line included) and the other does not; for
  a pair that straddles the splitting line strictly, it emits the interpolated
  crossing point into both halves (followed by the second point of the pair in the
  half that this point lies in).  The crossing point carries the flags
  that \<^emph>\<open>both\<close> end points carry (their bitwise AND, not their union), without the
  flag the split invalidates on that side, and with the new flag of the splitting
  line: in the half \<open>\<le> s\<close> the min flag of the splitting coordinate is cleared and
  its max flag is set, in the half \<open>\<ge> s\<close> the max flag is cleared and the min flag
  is set.
\<close>

theorem split_contour_crossing_flags:
  "split_contour src c s ([], []) =
     (concat (map (\<lambda>i. fst (split_step c s (cyc_pred src i) (src ! i) ([], []))) [0..<length src]),
      concat (map (\<lambda>i. snd (split_step c s (cyc_pred src i) (src ! i) ([], []))) [0..<length src]))
   \<and> split_step c s prev_pt pt ([], []) =
       ((if (vec_get (position prev_pt) c \<le> s) \<noteq> (vec_get (position pt) c \<le> s)
         then [crossing_point prev_pt pt c s (max_flag c) (min_flag c)] else [])
        @ (if vec_get (position pt) c \<le> s then [pt] else []),
        (if (vec_get (position prev_pt) c \<ge> s) \<noteq> (vec_get (position pt) c \<ge> s)
         then [crossing_point prev_pt pt c s (min_flag c) (max_flag c)] else [])
        @ (if vec_get (position pt) c \<ge> s then [pt] else []))
   \<and> (vec_get (position prev_pt) c < s \<and> s < vec_get (position pt) c \<longrightarrow>
        split_step c s prev_pt pt ([], []) =
          ([crossing_point prev_pt pt c s (max_flag c) (min_flag c)],
           [crossing_point prev_pt pt c s (min_flag c) (max_flag c), pt]))
   \<and> (vec_get (position pt) c < s \<and> s < vec_get (position prev_pt) c \<longrightarrow>
        split_step c s prev_pt pt ([], []) =
          ([crossing_point prev_pt pt c s (max_flag c) (min_flag c), pt],
           [crossing_point prev_pt pt c s (min_flag c) (max_flag c)]))"
  using split_contour_concat [of src c s] split_step_rising [of prev_pt c s pt]
    split_step_falling [of pt c s prev_pt] split_step_emits [of c s prev_pt pt]
  by blast

lemma edge_contour_values:
  "vec_get (position corner_pt) 0 = 0" "vec_get (position inner_pt) 0 = 2"
  "crossing_point corner_pt inner_pt 0 1 (max_flag 0) (min_flag 0)
     = \<lparr>position = (1, 1 / 2), flags = 2\<rparr>"
  "crossing_point corner_pt inner_pt 0 1 (min_flag 0) (max_flag 0)
     = \<lparr>position = (1, 1 / 2), flags = 1\<rparr>"
  "crossing_point inner_pt corner_pt 0 1 (max_flag 0) (min_flag 0)
     = \<lparr>position = (1, 1 / 2), flags = 2\<rparr>"
  "crossing_point inner_pt corner_pt 0 1 (min_flag 0) (max_flag 0)
     = \<lparr>position = (1, 1 / 2), flags = 1\<rparr>"
  by (simp_all add: corner_pt_def inner_pt_def crossing_point_def compute_spit_point_def
      vec_get_def vec_set_def min_flag_def max_flag_def on_min_x_boundary_def
      on_max_x_boundary_def)

lemma edge_contour_pairs:
  "cyc_pred edge_contour 0 = inner_pt" "cyc_pred edge_contour (Suc 0) = corner_pt"
  "edge_contour ! 0 = corner_pt" "edge_contour ! Suc 0 = inner_pt"
  "[0..<length edge_contour] = [0, Suc 0]"
  by (simp_all add: edge_contour_def cyc_pred_def upt_rec)

theorem split_contour_crossing_flags_witness:
  "split_step 0 1 corner_pt inner_pt ([], []) =
     ([\<lparr>position = (1, 1 / 2), flags = 2\<rparr>],
      [\<lparr>position = (1, 1 / 2), flags = 1\<rparr>, inner_pt])
   \<and> split_step 0 1 inner_pt corner_pt ([], []) =
     ([\<lparr>position = (1, 1 / 2), flags = 2\<rparr>, corner_pt],
      [\<lparr>position = (1, 1 / 2), flags = 1\<rparr>])
   \<and> split_contour edge_contour 0 1 ([], []) =
     ([\<lparr>position = (1, 1 / 2), flags = 2\<rparr>, corner_pt,
       \<lparr>position = (1, 1 / 2), flags = 2\<rparr>],
      [\<lparr>position = (1, 1 / 2), flags = 1\<rparr>,
       \<lparr>position = (1, 1 / 2), flags = 1\<rparr>, inner_pt])"
proof -
  have up: "vec_get (position corner_pt) 0 < 1 \<and> 1 < vec_get (position inner_pt) 0"
    by (simp add: edge_contour_values)
  with split_contour_crossing_flags [of "[]" 0 1 corner_pt inner_pt]
  have "split_step 0 1 corner_pt inner_pt ([], []) =
          ([crossing_point corner_pt inner_pt 0 1 (max_flag 0) (min_flag 0)],
           [crossing_point corner_pt inner_pt 0 1 (min_flag 0) (max_flag 0), inner_pt])"
    by blast
  then have rising: "split_step 0 1 corner_pt inner_pt ([], []) =
     ([\<lparr>position = (1, 1 / 2), flags = 2\<rparr>],
      [\<lparr>position = (1, 1 / 2), flags = 1\<rparr>, inner_pt])"
    by (simp only: edge_contour_values)
  from up split_contour_crossing_flags [of "[]" 0 1 inner_pt corner_pt]
  have "split_step 0 1 inner_pt corner_pt ([], []) =
          ([crossing_point inner_pt corner_pt 0 1 (max_flag 0) (min_flag 0), corner_pt],
           [crossing_point inner_pt corner_pt 0 1 (min_flag 0) (max_flag 0)])"
    by blast
  then have falling: "split_step 0 1 inner_pt corner_pt ([], []) =
     ([\<lparr>position = (1, 1 / 2), flags = 2\<rparr>, corner_pt],
      [\<lparr>position = (1, 1 / 2), flags = 1\<rparr>])"
    by (simp only: edge_contour_values)
  from split_contour_crossing_flags [of edge_contour 0 1 corner_pt inner_pt]
  have "split_contour edge_contour 0 1 ([], []) =
     (concat (map (\<lambda>i. fst (split_step 0 1 (cyc_pred edge_contour i) (edge_contour ! i) ([], [])))
                [0..<length edge_contour]),
      concat (map (\<lambda>i. snd (split_step 0 1 (cyc_pred edge_contour i) (edge_contour ! i) ([], [])))
                [0..<length edge_contour]))"
    by blast
  then have whole: "split_contour edge_contour 0 1 ([], []) =
     ([\<lparr>position = (1, 1 / 2), flags = 2\<rparr>, corner_pt,
       \<lparr>position = (1, 1 / 2), flags = 2\<rparr>],
      [\<lparr>position = (1, 1 / 2), flags = 1\<rparr>,
       \<lparr>position = (1, 1 / 2), flags = 1\<rparr>, inner_pt])"
    by (simp add: edge_contour_pairs rising falling)
  from rising falling whole show ?thesis by blast
qed

text \<open>
  Claim C1 as written fails: the corner point carries \<open>min_y\<close>, the interior point
  does not, the pair straddles \<open>x = 1\<close>, and the crossing point emitted into either half
  does not carry \<open>min_y\<close>.  Its flags are not the union of the end points' flags
  with the flag of the side exchanged, whichever of the two flags of the splitting
  coordinate is taken as the new one.
\<close>

theorem split_contour_union_flags_counterexample:
  "vec_get (position corner_pt) 0 < 1 \<and> 1 < vec_get (position inner_pt) 0
   \<and> map flags (fst (split_step 0 1 corner_pt inner_pt ([], []))) = [2]
   \<and> map flags (snd (split_step 0 1 corner_pt inner_pt ([], []))) = [1, 0]
   \<and> union_flags corner_pt inner_pt on_max_x_boundary on_min_x_boundary = 6
   \<and> union_flags corner_pt inner_pt on_min_x_boundary on_max_x_boundary = 5"
  by (simp add: split_step_def Let_def corner_pt_def inner_pt_def vec_get_def union_flags_def
      on_min_x_boundary_def on_max_x_boundary_def)


section \<open>\<open>unloop_contour\<close> and nested loops\<close>

text \<open>
  Claim C2 says that no vertex occurs twice within a contour that \<open>unloop_contour\<close>
  produces.  The contour \<open>0 1 2 1 0 3\<close> has no two cyclically consecutive vertices
  equal.  The search for the vertex \<open>0\<close> finds it again at position 4 and pushes the
  range \<open>[0, 4)\<close>, that is \<open>0 1 2 1\<close>, to the output without having looked for a
  second occurrence of the vertices inside the range: the vertex \<open>1\<close> occurs twice
  in the first contour of the output.
\<close>

theorem unloop_contour_nested_loop:
  "unloop_contour (contour_of [0, 1, 2, 1, 0, 3]) []
     = [contour_of [0, 1, 2, 1], contour_of [0, 3]]
   \<and> \<not> distinct (map m_vertex (contour_of [0, 1, 2, 1]))"
  by (simp add: unloop_contour_def contour_of_def)


section \<open>The invariant of the point tables\<close>

lemma fudge_hoard_inv: "hoard_inv fudge_hoard"
proof -
  have "\<And>x y v. m_map fudge_hoard (x, y) = Some v \<Longrightarrow> v < fudge_len \<and> fudge_ipt v = (x, y)"
    by (auto simp: fudge_hoard_def fudge_len_def fudge_ipt_def split: if_splits)
  then show ?thesis
    by (auto simp: hoard_inv_def) (simp_all add: fudge_hoard_def)
qed

lemma tiny_hoard_inv: "hoard_inv tiny_hoard"
  by (auto simp: hoard_inv_def tiny_hoard_def split: if_splits)

lemma new_PointHoard_inv: "hoard_inv (new_PointHoard pmin pmax)"
  by (simp add: hoard_inv_def new_PointHoard_def)

lemma find_or_add_inv:
  assumes "hoard_inv h"
  shows "hoard_inv (snd (find_or_add pt ipt h))"
proof (cases "m_map h ipt")
  case (Some v)
  with assms show ?thesis by (simp add: find_or_add_def)
next
  case None
  let ?h = "h\<lparr>m_pts := m_pts h @ [pt], m_ipts := m_ipts h @ [ipt],
               m_map := (m_map h)(ipt \<mapsto> length (m_pts h))\<rparr>"
  from assms have len: "length (m_pts h) = length (m_ipts h)"
    and old: "\<And>q v. m_map h q = Some v \<Longrightarrow> v < length (m_ipts h) \<and> m_ipts h ! v = q"
    by (auto simp: hoard_inv_def)
  have "hoard_inv ?h"
    unfolding hoard_inv_def
  proof (intro conjI allI impI)
    show "length (m_pts ?h) = length (m_ipts ?h)" by (simp add: len)
  next
    fix q v assume a: "m_map ?h q = Some v"
    show "v < length (m_ipts ?h)"
    proof (cases "q = ipt")
      case True with a show ?thesis by (simp add: len)
    next
      case False with a old [of q v] show ?thesis by simp
    qed
    show "m_ipts ?h ! v = q"
    proof (cases "q = ipt")
      case True with a show ?thesis by (auto simp: len)
    next
      case False with a old [of q v] show ?thesis by (simp add: nth_append)
    qed
  qed
  with None show ?thesis by (simp add: find_or_add_def)
qed

lemma find_or_add_vertex:
  assumes "hoard_inv h" "find_or_add pt ipt h = (v, h')"
  shows "v < length (m_ipts h') \<and> m_ipts h' ! v = ipt"
proof -
  from assms(1) have len: "length (m_pts h) = length (m_ipts h)"
    and old: "\<And>q v. m_map h q = Some v \<Longrightarrow> v < length (m_ipts h) \<and> m_ipts h ! v = q"
    by (auto simp: hoard_inv_def)
  show ?thesis
  proof (cases "m_map h ipt")
    case (Some w)
    with assms(2) old [of ipt w] show ?thesis by (auto simp: find_or_add_def)
  next
    case None
    have "(m_ipts h @ [ipt]) ! length (m_pts h) = ipt"
      unfolding len by simp
    with None assms(2) len show ?thesis by (auto simp: find_or_add_def)
  qed
qed

lemma find_or_add_keeps:
  assumes "find_or_add pt ipt h = (v, h')" "w < length (m_ipts h)"
  shows "w < length (m_ipts h') \<and> m_ipts h' ! w = m_ipts h ! w"
  using assms by (cases "m_map h ipt") (auto simp: find_or_add_def nth_append)

lemma fetch_corner_find:
  "fetch_corner mx my h = find_or_add (corner_position h mx my) (corner_ipt mx my) h"
  by (simp add: fetch_corner_def find_or_add_def corner_ipt_def corner_position_def Let_def)

lemma fetch_discretized_find:
  "fetch_discretized pt ipt0 fl h = find_or_add pt (boundary_ipt ipt0 fl) h"
  unfolding fetch_discretized_def find_or_add_def boundary_ipt_def Let_def ..

lemma fetch_corner_inv: "hoard_inv h \<Longrightarrow> hoard_inv (snd (fetch_corner mx my h))"
  by (simp add: fetch_corner_find find_or_add_inv)

lemma fetch_discretized_inv:
  assumes "hoard_inv h"
  shows "hoard_inv (snd (fetch_discretized pt ipt0 fl h))"
  using assms by (simp add: fetch_discretized_find find_or_add_inv)

lemma fetch_undiscretized_inv:
  assumes "hoard_inv h"
  shows "hoard_inv (snd (fetch_undiscretized pt ipt h))"
proof -
  from assms have len: "length (m_pts h) = length (m_ipts h)"
    and old: "\<And>q v. m_map h q = Some v \<Longrightarrow> v < length (m_ipts h) \<and> m_ipts h ! v = q"
    by (auto simp: hoard_inv_def)
  show ?thesis
    unfolding hoard_inv_def fetch_undiscretized_def
    using len old by (auto simp: nth_append dest: less_SucI)
qed


section \<open>The points a tesser delivers to the triangulator\<close>

lemma add_contour_append:
  "add_contour h (A @ B) st = (case add_contour h A st of None \<Rightarrow> None | Some st' \<Rightarrow> add_contour h B st')"
proof (induction A arbitrary: st)
  case Nil
  show ?case by simp
next
  case (Cons I A)
  show ?case
    by (cases st; cases "apply_fudge h (m_vertex I) (fst st)") (simp_all add: Cons)
qed

lemma add_path_concat: "add_path h P st = add_contour h (concat P) st"
  by (induction P arbitrary: st) (simp_all add: add_contour_append split: option.splits)

lemma uint_wrap_id: "n < 2 ^ 32 \<Longrightarrow> uint_wrap n = n"
  by (simp add: uint_wrap_def)

lemma add_contour_sent:
  assumes "\<forall>q\<in>set C. m_vertex q < length (m_ipts h)" "k + length C < 2 ^ 32"
  shows "add_contour h C (k, sent) =
           Some (k + length C,
                 sent @ map (\<lambda>i. (the (apply_fudge h (m_vertex (C ! i)) (k + i)), m_vertex (C ! i)))
                          [0..<length C])"
  using assms
proof (induction C arbitrary: k sent)
  case Nil
  then show ?case by simp
next
  case (Cons I C)
  from Cons.prems obtain p where p: "apply_fudge h (m_vertex I) k = Some p"
    by (auto simp: apply_fudge_def Let_def)
  from Cons.prems have k: "Suc k + length C < 2 ^ 32" by simp
  then have w: "uint_wrap (Suc k) = Suc k"
    by (simp add: uint_wrap_id)
  from Cons.prems have v: "\<forall>q\<in>set C. m_vertex q < length (m_ipts h)" by simp
  have m: "map (\<lambda>i. (the (apply_fudge h (m_vertex (C ! i)) (Suc k + i)), m_vertex (C ! i))) [0..<length C]
         = map (\<lambda>i. (the (apply_fudge h (m_vertex ((I # C) ! i)) (k + i)), m_vertex ((I # C) ! i))) [Suc 0..<Suc (length C)]"
    unfolding map_Suc_upt [symmetric] by auto
  have "add_contour h (I # C) (k, sent) = add_contour h C (Suc k, sent @ [(p, m_vertex I)])"
    by (simp add: p w)
  also have "\<dots> = Some (Suc k + length C,
          (sent @ [(p, m_vertex I)]) @
          map (\<lambda>i. (the (apply_fudge h (m_vertex (C ! i)) (Suc k + i)), m_vertex (C ! i))) [0..<length C])"
    by (rule Cons.IH [OF v k])
  also have "\<dots> = Some (k + length (I # C),
          sent @ map (\<lambda>i. (the (apply_fudge h (m_vertex ((I # C) ! i)) (k + i)), m_vertex ((I # C) ! i)))
                  [0..<length (I # C)])"
    unfolding m by (simp add: p upt_conv_Cons del: upt_Suc)
  finally show ?case .
qed

lemma apply_fudge_x:
  assumes "apply_fudge h I k = Some p"
  shows "\<exists>x::int. \<exists>s::int. (s = 1 \<or> s = - 1) \<and> fst p * 2 ^ 20 = real_of_int (x * 2 ^ 20 + s * int k)"
proof -
  from assms have I: "I < length (m_ipts h)"
    by (auto simp: apply_fudge_def split: if_splits)
  define x where "x = fst (m_ipts h ! I)"
  define s :: int where "s = (if x \<ge> box_dim div 2 then - 1 else 1)"
  from assms I have "fst p = real_of_int x + real_of_int s * (real k / 2 ^ 20)"
    by (auto simp: apply_fudge_def Let_def x_def s_def fudge_delta_def negative_log2_fudge_def)
  then have "fst p * 2 ^ 20 = real_of_int (x * 2 ^ 20 + s * int k)"
    by (simp add: field_simps)
  moreover have "s = 1 \<or> s = - 1" by (simp add: s_def)
  ultimately show ?thesis by blast
qed

lemma apply_fudge_distinct:
  assumes "apply_fudge h I1 k1 = Some p1" "apply_fudge h I2 k2 = Some p2"
    and "k1 < k2" "k1 + k2 < 2 ^ 20"
  shows "fst p1 \<noteq> fst p2"
proof
  assume eq: "fst p1 = fst p2"
  from apply_fudge_x [OF assms(1)] obtain x1 s1 :: int
    where 1: "s1 = 1 \<or> s1 = - 1" "fst p1 * 2 ^ 20 = real_of_int (x1 * 2 ^ 20 + s1 * int k1)" by blast
  from apply_fudge_x [OF assms(2)] obtain x2 s2 :: int
    where 2: "s2 = 1 \<or> s2 = - 1" "fst p2 * 2 ^ 20 = real_of_int (x2 * 2 ^ 20 + s2 * int k2)" by blast
  from eq 1(2) 2(2) have "real_of_int (x1 * 2 ^ 20 + s1 * int k1) = real_of_int (x2 * 2 ^ 20 + s2 * int k2)"
    by simp
  then have e: "x1 * 2 ^ 20 + s1 * int k1 = x2 * 2 ^ 20 + s2 * int k2"
    by (simp only: of_int_eq_iff)
  then have d: "(x1 - x2) * 2 ^ 20 = s2 * int k2 - s1 * int k1"
    by (simp add: algebra_simps)
  have nz: "s2 * int k2 - s1 * int k1 \<noteq> 0"
    using 1(1) 2(1) assms(3) by auto
  have small: "\<bar>s2 * int k2 - s1 * int k1\<bar> < 2 ^ 20"
    using 1(1) 2(1) assms(3,4) by auto
  from d nz have "x1 - x2 \<noteq> 0" by auto
  then have "\<bar>(x1 - x2) * 2 ^ 20\<bar> \<ge> 2 ^ 20"
    by (simp add: abs_mult)
  with d small show False by simp
qed

text \<open>
  Claim C7, as the code has it.  When every vertex of the path is a vertex of the
  hoard and the path has at most \<open>2 ^ 19 + 1\<close> points, the tesser delivers every
  point of the path, in order and with its vertex id, and the points delivered are
  pairwise distinct (they even differ in the first coordinate), whether or not their
  integer points are equal.
\<close>

theorem tesser_delivers_distinct:
  assumes "\<forall>q\<in>set (concat P). m_vertex q < length (m_ipts h)"
    and "length (concat P) \<le> 2 ^ 19 + 1"
  shows "\<exists>sent. tesser_delivers h P = Some sent
           \<and> map snd sent = map m_vertex (concat P)
           \<and> distinct (map fst sent)"
proof -
  define C where "C = concat P"
  define sent where
    "sent = map (\<lambda>i. (the (apply_fudge h (m_vertex (C ! i)) i), m_vertex (C ! i))) [0..<length C]"
  from assms(2) have small: "length C \<le> 2 ^ 19 + 1" by (simp add: C_def)
  then have b: "0 + length C < 2 ^ 32" by simp
  from assms(1) have v: "\<forall>q\<in>set C. m_vertex q < length (m_ipts h)" by (simp add: C_def)
  from add_contour_sent [OF v b, of "[]"]
  have "add_contour h C (0, []) = Some (length C, sent)"
    by (simp add: sent_def)
  then have d: "tesser_delivers h P = Some sent"
    by (simp add: tesser_delivers_def add_path_concat C_def)
  have ids: "map snd sent = map m_vertex C"
    by (rule nth_equalityI) (simp_all add: sent_def)
  have pt: "\<And>i. i < length C \<Longrightarrow> apply_fudge h (m_vertex (C ! i)) i = Some (fst (sent ! i))"
  proof -
    fix i assume i: "i < length C"
    with v have "m_vertex (C ! i) < length (m_ipts h)"
      by simp
    then show "apply_fudge h (m_vertex (C ! i)) i = Some (fst (sent ! i))"
      using i by (simp add: sent_def apply_fudge_def Let_def)
  qed
  have "distinct (map fst sent)"
    unfolding distinct_conv_nth
  proof (intro allI impI)
    fix i j
    assume i: "i < length (map fst sent)" and j: "j < length (map fst sent)" and ne: "i \<noteq> j"
    then have ij: "i < length C" "j < length C" by (simp_all add: sent_def)
    with small ne have sum: "i + j < 2 ^ 20" by simp
    have "fst (fst (sent ! i)) \<noteq> fst (fst (sent ! j))"
    proof (cases "i < j")
      case True
      from apply_fudge_distinct [OF pt [OF ij(1)] pt [OF ij(2)] True sum] show ?thesis .
    next
      case False
      with ne have "j < i" by simp
      moreover from sum have "j + i < 2 ^ 20" by (simp add: add.commute)
      ultimately show ?thesis
        using apply_fudge_distinct [OF pt [OF ij(2)] pt [OF ij(1)]] by fastforce
    qed
    then show "map fst sent ! i \<noteq> map fst sent ! j"
      using ij by (auto simp: sent_def)
  qed
  with d ids show ?thesis by (auto simp: C_def)
qed

lemma tiny_path_valid:
  "\<forall>q\<in>set (concat tiny_path). m_vertex q < length (m_ipts tiny_hoard)"
  "length (concat tiny_path) \<le> 2 ^ 19 + 1"
  by (simp_all add: tiny_path_def tiny_hoard_def contour_of_def)

theorem tesser_delivers_distinct_witness:
  "\<exists>sent. tesser_delivers tiny_hoard tiny_path = Some sent
     \<and> map snd sent = [0, 1, 2]
     \<and> distinct (map fst sent)"
  using tesser_delivers_distinct [OF tiny_path_valid]
  by (simp add: tiny_path_def contour_of_def)

lemma fudge_path_sent:
  "tesser_delivers fudge_hoard fudge_path =
     Some (map (\<lambda>i. (the (apply_fudge fudge_hoard i i), i)) [0..<fudge_len])"
proof -
  define C where "C = map (\<lambda>k. \<lparr>m_vertex = k, m_flags = 0\<rparr>) [0..<fudge_len]"
  have len: "length C = fudge_len" by (simp add: C_def)
  have v: "\<forall>q\<in>set C. m_vertex q < length (m_ipts fudge_hoard)"
    by (auto simp: C_def fudge_hoard_def)
  have b: "0 + length C < 2 ^ 32"
    unfolding len by (simp add: fudge_len_def)
  have "map (\<lambda>i. (the (apply_fudge fudge_hoard (m_vertex (C ! i)) (0 + i)), m_vertex (C ! i))) [0..<length C]
      = map (\<lambda>i. (the (apply_fudge fudge_hoard i i), i)) [0..<fudge_len]"
    unfolding len by (rule map_cong) (simp_all add: C_def)
  with add_contour_sent [OF v b, of "[]"] show ?thesis
    by (simp add: tesser_delivers_def add_path_concat fudge_path_def C_def [symmetric])
qed


lemma fudge_hoard_collision:

  "apply_fudge fudge_hoard 524287 524287 = apply_fudge fudge_hoard 524289 524289"
proof -
  have a: "(524287 :: nat) < fudge_len" and b: "(524289 :: nat) < fudge_len"
    by (simp_all add: fudge_len_def)
  have ia: "m_ipts fudge_hoard ! 524287 = (2 ^ 23 - 1, 2 ^ 23 - 1)"
    using a by (simp add: fudge_hoard_def fudge_ipt_def)
  have ib: "m_ipts fudge_hoard ! 524289 = (2 ^ 23, 2 ^ 23)"
    using b by (simp add: fudge_hoard_def fudge_ipt_def)
  have l: "length (m_ipts fudge_hoard) = fudge_len"
    by (simp add: fudge_hoard_def)
  show ?thesis
    unfolding apply_fudge_def l ia ib using a b
    by (simp add: Let_def box_dim_def log2_box_dim_def fudge_delta_def negative_log2_fudge_def)
qed

text \<open>
  Claim C7 as written fails for a longer path: the fudge of the vertex delivered with
  count \<open>2 ^ 19 - 1\<close> is added to the integer point \<open>(2 ^ 23 - 1, 2 ^ 23 - 1)\<close>, the fudge
  of the vertex delivered with count \<open>2 ^ 19 + 1\<close> is subtracted from \<open>(2 ^ 23, 2 ^ 23)\<close>,
  and both give the point \<open>2 ^ 23 - 1 / 2 - 2 ^ -20\<close> on both axes.
\<close>

theorem tesser_delivers_collision:
  "tesser_delivers fudge_hoard fudge_path \<noteq> None
   \<and> \<not> distinct (map fst (the (tesser_delivers fudge_hoard fudge_path)))"
proof -
  define pts where "pts = map (\<lambda>i. the (apply_fudge fudge_hoard i i)) [0..<fudge_len]"
  have a: "(524287 :: nat) < fudge_len" and b: "(524289 :: nat) < fudge_len"
    by (simp_all add: fudge_len_def)
  have len: "length pts = fudge_len" by (simp add: pts_def)
  have eq: "pts ! 524287 = pts ! 524289"
    unfolding pts_def using a b by (simp add: fudge_hoard_collision del: upt_Suc)
  have "\<not> distinct pts"
  proof
    assume d: "distinct pts"
    from a b have a': "524287 < length pts" and b': "524289 < length pts"
      by (simp_all only: len)
    have "(pts ! 524287 = pts ! 524289) = ((524287 :: nat) = 524289)"
      by (rule nth_eq_iff_index_eq [OF d a' b'])
    with eq show False by simp
  qed
  moreover have "map fst (the (tesser_delivers fudge_hoard fudge_path)) = pts"
    by (simp add: fudge_path_sent pts_def o_def)
  ultimately show ?thesis
    by (simp add: fudge_path_sent)
qed


section \<open>The vertex callback of the tesser\<close>

lemma vertex_callBack_store:
  assumes "m_temp_vert_count p < 2"
  shows "vertex_callBack g v p =
           Some (p\<lparr>m_triangulation_failed := m_triangulation_failed p \<or> v = nullptr_CLIENT_ID g,
                   m_temp_verts := (m_temp_verts p)[m_temp_vert_count p := v],
                   m_temp_vert_count := m_temp_vert_count p + 1\<rparr>)"
  using assms by (auto simp: vertex_callBack_def Let_def)

lemma vertex_callBack_third:
  fixes g :: glu and v :: nat and p :: tesser
  assumes "m_temp_vert_count p = 2" "length (m_temp_verts p) = 3"
  defines "q \<equiv> p\<lparr>m_triangulation_failed := m_triangulation_failed p \<or> v = nullptr_CLIENT_ID g,
                   m_temp_verts := (m_temp_verts p)[2 := v], m_temp_vert_count := 0\<rparr>"
  shows "vertex_callBack g v p =
           (if m_temp_verts q ! 0 \<noteq> nullptr_CLIENT_ID g \<and> m_temp_verts q ! 1 \<noteq> nullptr_CLIENT_ID g
               \<and> m_temp_verts q ! 2 \<noteq> nullptr_CLIENT_ID g
            then (case temp_verts_non_degenerate_triangle g q of
                    None \<Rightarrow> None
                  | Some False \<Rightarrow> Some q
                  | Some True \<Rightarrow>
                      (case m_current_indices q of
                         None \<Rightarrow> None
                       | Some k \<Rightarrow>
                           Some (q\<lparr>m_hoard :=
                             update_component k
                               (\<lambda>c. c\<lparr>m_triangles := m_triangles c
                                        @ [m_temp_verts q ! 0, m_temp_verts q ! 1, m_temp_verts q ! 2]\<rparr>)
                               (m_hoard q)\<rparr>)))
            else Some q)"
proof (cases "v = nullptr_CLIENT_ID g")
  case True
  with assms(1,2) show ?thesis
    unfolding q_def vertex_callBack_def Let_def
    by (simp split: option.splits bool.splits)
next
  case False
  with assms(1,2) show ?thesis
    unfolding q_def vertex_callBack_def Let_def
    by (simp split: option.splits bool.splits)
qed


lemma three_updates:
  assumes "length t = 3"
  shows "t[0 := a, Suc 0 := b, 2 := c] = [a, b, c]"
proof -
  from assms obtain x y z where "t = [x, y, z]"
    by (cases t; cases "tl t"; cases "tl (tl t)") auto
  then show ?thesis by simp
qed

lemma non_degenerate_accepted:
  assumes t: "m_temp_verts q = [a, b, c]"
    and nn: "a \<noteq> nullptr_CLIENT_ID g" "b \<noteq> nullptr_CLIENT_ID g" "c \<noteq> nullptr_CLIENT_ID g"
    and valid: "a < length (m_ipts (m_points q))" "b < length (m_ipts (m_points q))"
      "c < length (m_ipts (m_points q))"
  shows "temp_verts_non_degenerate_triangle g q = Some (triangle_accepted g (m_points q) a b c)"
proof (cases "a = b \<or> a = c \<or> b = c")
  case True
  then show ?thesis
    by (auto simp: temp_verts_non_degenerate_triangle_def t Let_def triangle_accepted_def)
next
  case False
  let ?h = "m_points q"
  show ?thesis
  proof (cases "twice_area ?h a b c = 0")
    case True
    with False valid show ?thesis
      unfolding temp_verts_non_degenerate_triangle_def t Let_def triangle_accepted_def
      by (simp add: twice_area_def)
  next
    case nz: False
    have "temp_verts_non_degenerate_triangle g q =
        Some (\<not> (real_of_int (twice_area ?h a b c)
                    < min_height * t_sqrt g (real_of_int (squared_length ?h a b))
                \<or> real_of_int (twice_area ?h a b c)
                    < min_height * t_sqrt g (real_of_int (squared_length ?h a c))
                \<or> real_of_int (twice_area ?h a b c)
                    < min_height * t_sqrt g (real_of_int (squared_length ?h b c))))"
      using False valid nz
      unfolding temp_verts_non_degenerate_triangle_def t Let_def
      by (simp add: twice_area_def squared_length_def dot_def power2_eq_square)
    with False nz nn show ?thesis
      unfolding min_height_def triangle_accepted_def by (auto simp: not_less)
  qed
qed

lemma map_of_update_component:
  "map_of (update_component k f H) =
     (case map_of H k of None \<Rightarrow> map_of H | Some c \<Rightarrow> (map_of H)(k \<mapsto> f c))"
  by (induction H) (auto split: option.splits)

lemma map_fst_update_component: "map fst (update_component k f H) = map fst H"
  by (induction H) auto

lemma vertex_group_run:
  assumes cnt: "m_temp_vert_count p = 0" and len: "length (m_temp_verts p) = 3"
    and cur: "m_current_indices p = Some k" and wcd: "map_of (m_hoard p) k = Some wcd"
    and valid: "\<forall>i\<in>{a, b, c}. i \<noteq> nullptr_CLIENT_ID g \<longrightarrow> i < length (m_ipts (m_points p))"
  shows "\<exists>p'. run_callbacks g [Vertex_cb a, Vertex_cb b, Vertex_cb c] p = Some p'
           \<and> map_of (m_hoard p') =
               (if triangle_accepted g (m_points p) a b c
                then (map_of (m_hoard p))(k \<mapsto> wcd\<lparr>m_triangles := m_triangles wcd @ [a, b, c]\<rparr>)
                else map_of (m_hoard p))
           \<and> map fst (m_hoard p') = map fst (m_hoard p)
           \<and> m_points p' = m_points p \<and> m_temp_vert_count p' = 0
           \<and> m_current_indices p' = Some k
           \<and> (m_triangulation_failed p' \<longleftrightarrow>
                m_triangulation_failed p \<or> a = nullptr_CLIENT_ID g \<or> b = nullptr_CLIENT_ID g
                  \<or> c = nullptr_CLIENT_ID g)"
proof -
  define p1 where "p1 = p\<lparr>m_triangulation_failed := m_triangulation_failed p \<or> a = nullptr_CLIENT_ID g,
                   m_temp_verts := (m_temp_verts p)[0 := a], m_temp_vert_count := 1\<rparr>"
  define p2 where "p2 = p1\<lparr>m_triangulation_failed := m_triangulation_failed p1 \<or> b = nullptr_CLIENT_ID g,
                   m_temp_verts := (m_temp_verts p1)[1 := b], m_temp_vert_count := 2\<rparr>"
  define q where "q = p2\<lparr>m_triangulation_failed := m_triangulation_failed p2 \<or> c = nullptr_CLIENT_ID g,
                   m_temp_verts := (m_temp_verts p2)[2 := c], m_temp_vert_count := 0\<rparr>"
  have s1: "vertex_callBack g a p = Some p1"
    using vertex_callBack_store [of p g a] cnt by (simp add: p1_def)
  have s2: "vertex_callBack g b p1 = Some p2"
    using vertex_callBack_store [of p1 g b] by (simp add: p1_def p2_def)
  have c2: "m_temp_vert_count p2 = 2" "length (m_temp_verts p2) = 3"
    by (simp_all add: p2_def p1_def len)
  have tq: "m_temp_verts q = [a, b, c]"
    using three_updates [OF len, of a b c] by (simp add: q_def p2_def p1_def)
  have fq: "m_hoard q = m_hoard p" "m_points q = m_points p" "m_current_indices q = Some k"
    "m_temp_vert_count q = 0"
    "m_triangulation_failed q \<longleftrightarrow> m_triangulation_failed p \<or> a = nullptr_CLIENT_ID g
        \<or> b = nullptr_CLIENT_ID g \<or> c = nullptr_CLIENT_ID g"
    by (auto simp: q_def p2_def p1_def cur)
  note third = vertex_callBack_third [OF c2, where g = g and v = c, folded q_def, unfolded tq, simplified]
  have run: "run_callbacks g [Vertex_cb a, Vertex_cb b, Vertex_cb c] p = vertex_callBack g c p2"
    by (simp add: s1 s2 split: option.splits)
  show ?thesis
  proof (cases "a \<noteq> nullptr_CLIENT_ID g \<and> b \<noteq> nullptr_CLIENT_ID g \<and> c \<noteq> nullptr_CLIENT_ID g")
    case False
    then have "\<not> triangle_accepted g (m_points p) a b c" by (auto simp: triangle_accepted_def)
    moreover from False third have "vertex_callBack g c p2 = Some q" by auto
    ultimately show ?thesis
      unfolding run using fq by simp
  next
    case True
    with valid have val: "a < length (m_ipts (m_points q))" "b < length (m_ipts (m_points q))"
      "c < length (m_ipts (m_points q))"
      by (simp_all add: fq)
    from True have nn: "a \<noteq> nullptr_CLIENT_ID g" "b \<noteq> nullptr_CLIENT_ID g" "c \<noteq> nullptr_CLIENT_ID g"
      by simp_all
    have nd: "temp_verts_non_degenerate_triangle g q = Some (triangle_accepted g (m_points p) a b c)"
      using non_degenerate_accepted [OF tq nn val] by (simp add: fq)
    show ?thesis
    proof (cases "triangle_accepted g (m_points p) a b c")
      case False
      with nd True third have "vertex_callBack g c p2 = Some q" by simp
      with False show ?thesis
        unfolding run using fq by simp
    next
      case acc: True
      let ?q' = "q\<lparr>m_hoard := update_component k
                   (\<lambda>wcd. wcd\<lparr>m_triangles := m_triangles wcd @ [a, b, c]\<rparr>) (m_hoard q)\<rparr>"
      from nd True third acc fq(3) have "vertex_callBack g c p2 = Some ?q'" by simp
      moreover have "map_of (m_hoard ?q')
           = (map_of (m_hoard p))(k \<mapsto> wcd\<lparr>m_triangles := m_triangles wcd @ [a, b, c]\<rparr>)"
        by (simp add: map_of_update_component fq wcd)
      moreover have "map fst (m_hoard ?q') = map fst (m_hoard p)"
        by (simp add: map_fst_update_component fq)
      ultimately show ?thesis
        unfolding run using fq acc by simp
    qed
  qed
qed

lemma accurate_sandwich:
  fixes t s A :: real
  assumes "\<bar>t - s\<bar> \<le> s / 2 ^ 53"
  shows "2 ^ 7 * (1 + 1 / 2 ^ 53) * s \<le> A \<Longrightarrow> 2 ^ 7 * t \<le> A"
    and "2 ^ 7 * t \<le> A \<Longrightarrow> 2 ^ 7 * (1 - 1 / 2 ^ 53) * s \<le> A"
proof -
  from assms have u: "t \<le> s + s / 2 ^ 53" and l: "s - s / 2 ^ 53 \<le> t" by linarith+
  show "2 ^ 7 * t \<le> A" if "2 ^ 7 * (1 + 1 / 2 ^ 53) * s \<le> A"
  proof -
    have "2 ^ 7 * t \<le> 2 ^ 7 * (s + s / 2 ^ 53)" using u by simp
    also have "\<dots> = 2 ^ 7 * (1 + 1 / 2 ^ 53) * s" by (simp add: algebra_simps)
    finally show ?thesis using that by linarith
  qed
  show "2 ^ 7 * (1 - 1 / 2 ^ 53) * s \<le> A" if "2 ^ 7 * t \<le> A"
  proof -
    have "2 ^ 7 * (1 - 1 / 2 ^ 53) * s = 2 ^ 7 * (s - s / 2 ^ 53)" by (simp add: algebra_simps)
    also have "\<dots> \<le> 2 ^ 7 * t" using l by simp
    finally show ?thesis using that by linarith
  qed
qed

text \<open>
  Claim C4, as the code has it.  Let the tesser be at the start of a group of three vertices
  (\<open>m_temp_vert_count = 0\<close>) with a current component \<open>wcd\<close> under the key \<open>k\<close>, and let
  every id that is not the null sentinel be a vertex of the point tables.  Then the
  three vertex callbacks complete, and the triangle \<open>a b c\<close> is appended to the
  triangle list of the current component if and only if no id is the null sentinel,
  the ids are pairwise distinct, the cross product of the edge vectors \<open>pb - pa\<close> and
  \<open>pc - pa\<close> is not zero, and its absolute value (twice the area) is at least \<open>2 ^ 7\<close>
  times the value of \<open>t_sqrt\<close> at the squared length of each of the three edges;
  otherwise the map of components is left as it is.  Nothing else of the state changes
  but the failure flag, which is set when an id is the null sentinel.  The integer
  values are converted to doubles exactly, so \<open>t_sqrt\<close> is the one rounding the
  comparison depends on: where it is as accurate as a square root rounded to the
  nearest double, a triangle of usable ids and non-zero area is appended when every
  altitude is at least \<open>2 ^ 7 * (1 + 2 ^ -53)\<close> grid units, and a triangle that is
  appended has every altitude at least \<open>2 ^ 7 * (1 - 2 ^ -53)\<close> grid units.
\<close>

theorem vertex_callBack_triangle:
  assumes cnt: "m_temp_vert_count p = 0" and len: "length (m_temp_verts p) = 3"
    and cur: "m_current_indices p = Some k" and wcd: "map_of (m_hoard p) k = Some wcd"
    and valid: "\<forall>i\<in>{a, b, c}. i \<noteq> nullptr_CLIENT_ID g \<longrightarrow> i < length (m_ipts (m_points p))"
    and acc: "sqrt_accurate g (m_points p) a b c"
  shows "\<exists>p'. run_callbacks g [Vertex_cb a, Vertex_cb b, Vertex_cb c] p = Some p'
           \<and> map_of (m_hoard p') =
               (if triangle_accepted g (m_points p) a b c
                then (map_of (m_hoard p))(k \<mapsto> wcd\<lparr>m_triangles := m_triangles wcd @ [a, b, c]\<rparr>)
                else map_of (m_hoard p))
           \<and> map fst (m_hoard p') = map fst (m_hoard p)
           \<and> m_points p' = m_points p \<and> m_temp_vert_count p' = 0
           \<and> m_current_indices p' = Some k
           \<and> (m_triangulation_failed p' \<longleftrightarrow>
                m_triangulation_failed p \<or> a = nullptr_CLIENT_ID g \<or> b = nullptr_CLIENT_ID g
                  \<or> c = nullptr_CLIENT_ID g)
           \<and> (a \<noteq> nullptr_CLIENT_ID g \<and> b \<noteq> nullptr_CLIENT_ID g \<and> c \<noteq> nullptr_CLIENT_ID g
                \<and> a \<noteq> b \<and> a \<noteq> c \<and> b \<noteq> c \<and> twice_area (m_points p) a b c \<noteq> 0
                \<and> altitudes_at_least (m_points p) a b c (2 ^ 7 * (1 + 1 / 2 ^ 53))
                \<longrightarrow> triangle_accepted g (m_points p) a b c)
           \<and> (triangle_accepted g (m_points p) a b c
                \<longrightarrow> a \<noteq> nullptr_CLIENT_ID g \<and> b \<noteq> nullptr_CLIENT_ID g \<and> c \<noteq> nullptr_CLIENT_ID g
                  \<and> a \<noteq> b \<and> a \<noteq> c \<and> b \<noteq> c \<and> twice_area (m_points p) a b c \<noteq> 0
                  \<and> altitudes_at_least (m_points p) a b c (2 ^ 7 * (1 - 1 / 2 ^ 53)))"
proof -
  let ?h = "m_points p"
  from acc have e:
    "\<bar>t_sqrt g (real_of_int (squared_length ?h a b)) - sqrt (real_of_int (squared_length ?h a b))\<bar>
       \<le> sqrt (real_of_int (squared_length ?h a b)) / 2 ^ 53"
    "\<bar>t_sqrt g (real_of_int (squared_length ?h a c)) - sqrt (real_of_int (squared_length ?h a c))\<bar>
       \<le> sqrt (real_of_int (squared_length ?h a c)) / 2 ^ 53"
    "\<bar>t_sqrt g (real_of_int (squared_length ?h b c)) - sqrt (real_of_int (squared_length ?h b c))\<bar>
       \<le> sqrt (real_of_int (squared_length ?h b c)) / 2 ^ 53"
    by (simp_all add: sqrt_accurate_def)
  have wide: "triangle_accepted g ?h a b c"
    if "a \<noteq> nullptr_CLIENT_ID g \<and> b \<noteq> nullptr_CLIENT_ID g \<and> c \<noteq> nullptr_CLIENT_ID g
          \<and> a \<noteq> b \<and> a \<noteq> c \<and> b \<noteq> c \<and> twice_area ?h a b c \<noteq> 0
          \<and> altitudes_at_least ?h a b c (2 ^ 7 * (1 + 1 / 2 ^ 53))"
    using that accurate_sandwich(1) [OF e(1)] accurate_sandwich(1) [OF e(2)]
      accurate_sandwich(1) [OF e(3)]
    unfolding triangle_accepted_def altitudes_at_least_def by blast
  have thin: "altitudes_at_least ?h a b c (2 ^ 7 * (1 - 1 / 2 ^ 53))"
    if "triangle_accepted g ?h a b c"
    using that accurate_sandwich(2) [OF e(1)] accurate_sandwich(2) [OF e(2)]
      accurate_sandwich(2) [OF e(3)]
    unfolding triangle_accepted_def altitudes_at_least_def by blast
  have ids: "a \<noteq> nullptr_CLIENT_ID g \<and> b \<noteq> nullptr_CLIENT_ID g \<and> c \<noteq> nullptr_CLIENT_ID g
                  \<and> a \<noteq> b \<and> a \<noteq> c \<and> b \<noteq> c \<and> twice_area ?h a b c \<noteq> 0"
    if "triangle_accepted g ?h a b c"
    using that unfolding triangle_accepted_def by blast
  from vertex_group_run [OF cnt len cur wcd valid] wide thin ids
  show ?thesis by blast
qed

section \<open>The layout of the index buffer of \<open>fill_indices\<close>\<close>

lemma is_even_iff: "is_even v \<longleftrightarrow> even v"
proof -
  have "c_rem v 2 = v - 2 * (sgn v * (\<bar>v\<bar> div 2))"
    by (simp add: c_rem_def c_div_def)
  also have "\<dots> = sgn v * (\<bar>v\<bar> mod 2)"
    by (cases "v < 0") (auto simp: sgn_if algebra_simps minus_mult_div_eq_mod [symmetric])
  finally have "c_rem v 2 = sgn v * (\<bar>v\<bar> mod 2)" .
  then show ?thesis
    by (auto simp: is_even_def sgn_if even_iff_mod_2_eq_zero split: if_splits)
qed

lemma class_indices_Cons:
  "odd_indices ((w, c) # H) = (if w \<noteq> 0 \<and> \<not> is_even w then m_triangles c else []) @ odd_indices H"
  "even_non_zero_indices ((w, c) # H)
     = (if w \<noteq> 0 \<and> is_even w then m_triangles c else []) @ even_non_zero_indices H"
  "zero_indices ((w, c) # H) = (if w = 0 then m_triangles c else []) @ zero_indices H"
  by (auto simp: odd_indices_def even_non_zero_indices_def zero_indices_def is_even_iff)

lemma class_indices_Nil:
  "odd_indices [] = []" "even_non_zero_indices [] = []" "zero_indices [] = []"
  by (simp_all add: odd_indices_def even_non_zero_indices_def zero_indices_def)

lemma count_indices_eq:
  "count_indices H (t, od, ev, ze) =
     (t + length (odd_indices H) + length (even_non_zero_indices H) + length (zero_indices H),
      od + length (odd_indices H), ev + length (even_non_zero_indices H),
      ze + length (zero_indices H))"
  by (induction H arbitrary: t od ev ze) (auto simp: class_indices_Cons class_indices_Nil Let_def)

lemma fill_at_mid:
  assumes "length X = length tri"
  shows "fill_at tri (length P) (P @ X @ S) = Some (length P + length tri, P @ tri @ S, (length P, length tri))"
  using assms by (simp add: fill_at_def)

lemma split_by_length:
  assumes "length X = length T + n"
  obtains X1 X2 where "X = X1 @ X2" "length X1 = length T" "length X2 = n"
proof
  show "X = take (length T) X @ drop (length T) X" by simp
  show "length (take (length T) X) = length T" using assms by simp
  show "length (drop (length T) X) = n" using assms by simp
qed

lemma fill_loop_layout:
  assumes "length X1 = length (odd_indices H)"
    and "length X2 = length (even_non_zero_indices H)"
    and "length X3 = length (zero_indices H)"
    and "co = length A" "ce = length A + length X1 + length B"
    and "cz = length A + length X1 + length B + length X2 + length C"
    and "dest = A @ X1 @ B @ X2 @ C @ X3"
  shows "\<exists>wm'. fill_loop H (co, ce, cz, dest, wm)
           = Some (co + length (odd_indices H), ce + length (even_non_zero_indices H),
                   cz + length (zero_indices H),
                   A @ odd_indices H @ B @ even_non_zero_indices H @ C @ zero_indices H, wm')"
  using assms
proof (induction H arbitrary: A X1 B X2 C X3 co ce cz dest wm)
  case Nil
  then show ?case by (simp add: class_indices_Nil)
next
  case (Cons e H)
  obtain w c where e: "e = (w, c)" by (cases e)
  let ?tri = "m_triangles c"
  note cur = Cons.prems(4-7)
  show ?case
  proof (cases "?tri = []")
    case True
    with Cons.prems(1-3) have p: "length X1 = length (odd_indices H)"
      "length X2 = length (even_non_zero_indices H)" "length X3 = length (zero_indices H)"
      by (simp_all add: e class_indices_Cons)
    from Cons.IH [OF p cur, of wm] True show ?thesis
      by (simp add: e class_indices_Cons)
  next
    case False
    then have pos: "length ?tri > 0" by simp
    consider (zero) "w = 0" | (even) "w \<noteq> 0" "is_even w" | (odd) "w \<noteq> 0" "\<not> is_even w"
      by blast
    then show ?thesis
    proof cases
      case zero
      with Cons.prems(1-3) have p: "length X1 = length (odd_indices H)"
        "length X2 = length (even_non_zero_indices H)"
        and "length X3 = length ?tri + length (zero_indices H)"
        by (simp_all add: e class_indices_Cons)
      then obtain T X3' where X3: "X3 = T @ X3'" "length T = length ?tri"
        "length X3' = length (zero_indices H)"
        by (metis split_by_length)
      let ?P = "A @ X1 @ B @ X2 @ C"
      have cz: "cz = length ?P" using cur by simp
      have dest: "dest = ?P @ T @ X3'" using cur X3 by simp
      have fa: "fill_at ?tri cz dest
              = Some (cz + length ?tri, ?P @ ?tri @ X3', (cz, length ?tri))"
        unfolding cz dest by (rule fill_at_mid [OF X3(2)])
      have step: "fill_loop (e # H) (co, ce, cz, dest, wm)
          = fill_loop H (co, ce, cz + length ?tri, ?P @ ?tri @ X3', (map_assign w (cz, length ?tri) wm))"
        using zero pos by (simp add: e fa Let_def)
      have "\<exists>wm'. fill_loop H (co, ce, cz + length ?tri, ?P @ ?tri @ X3', (map_assign w (cz, length ?tri) wm))
           = Some (co + length (odd_indices H), ce + length (even_non_zero_indices H),
                   cz + length ?tri + length (zero_indices H),
                   A @ odd_indices H @ B @ even_non_zero_indices H @ (C @ ?tri) @ zero_indices H, wm')"
        by (rule Cons.IH [OF p X3(3)]) (use cur in simp_all)
      then show ?thesis
        unfolding step using zero by (simp add: e class_indices_Cons add.assoc)
    next
      case even
      with Cons.prems(1-3) have p: "length X1 = length (odd_indices H)"
        "length X3 = length (zero_indices H)"
        and "length X2 = length ?tri + length (even_non_zero_indices H)"
        by (simp_all add: e class_indices_Cons)
      then obtain T X2' where X2: "X2 = T @ X2'" "length T = length ?tri"
        "length X2' = length (even_non_zero_indices H)"
        by (metis split_by_length)
      let ?P = "A @ X1 @ B"
      let ?S = "X2' @ C @ X3"
      have ce: "ce = length ?P" using cur by simp
      have dest: "dest = ?P @ T @ ?S" using cur X2 by simp
      have fa: "fill_at ?tri ce dest
              = Some (ce + length ?tri, ?P @ ?tri @ ?S, (ce, length ?tri))"
        unfolding ce dest by (rule fill_at_mid [OF X2(2)])
      have step: "fill_loop (e # H) (co, ce, cz, dest, wm)
          = fill_loop H (co, ce + length ?tri, cz, ?P @ ?tri @ ?S, (map_assign w (ce, length ?tri) wm))"
        using even pos by (simp add: e fa Let_def)
      have "\<exists>wm'. fill_loop H (co, ce + length ?tri, cz, ?P @ ?tri @ ?S, (map_assign w (ce, length ?tri) wm))
           = Some (co + length (odd_indices H), ce + length ?tri + length (even_non_zero_indices H),
                   cz + length (zero_indices H),
                   A @ odd_indices H @ (B @ ?tri) @ even_non_zero_indices H @ C @ zero_indices H, wm')"
        by (rule Cons.IH [OF p(1) X2(3) p(2)]) (use cur X2 in simp_all)
      then show ?thesis
        unfolding step using even by (simp add: e class_indices_Cons add.assoc)
    next
      case odd
      with Cons.prems(1-3) have p: "length X2 = length (even_non_zero_indices H)"
        "length X3 = length (zero_indices H)"
        and "length X1 = length ?tri + length (odd_indices H)"
        by (simp_all add: e class_indices_Cons)
      then obtain T X1' where X1: "X1 = T @ X1'" "length T = length ?tri"
        "length X1' = length (odd_indices H)"
        by (metis split_by_length)
      let ?S = "X1' @ B @ X2 @ C @ X3"
      have co: "co = length A" using cur by simp
      have dest: "dest = A @ T @ ?S" using cur X1 by simp
      have fa: "fill_at ?tri co dest
              = Some (co + length ?tri, A @ ?tri @ ?S, (co, length ?tri))"
        unfolding co dest by (rule fill_at_mid [OF X1(2)])
      have step: "fill_loop (e # H) (co, ce, cz, dest, wm)
          = fill_loop H (co + length ?tri, ce, cz, A @ ?tri @ ?S, (map_assign w (co, length ?tri) wm))"
        using odd pos by (simp add: e fa Let_def)
      have "\<exists>wm'. fill_loop H (co + length ?tri, ce, cz, A @ ?tri @ ?S, (map_assign w (co, length ?tri) wm))
           = Some (co + length ?tri + length (odd_indices H), ce + length (even_non_zero_indices H),
                   cz + length (zero_indices H),
                   (A @ ?tri) @ odd_indices H @ B @ even_non_zero_indices H @ C @ zero_indices H, wm')"
        by (rule Cons.IH [OF X1(3) p]) (use cur X1 in simp_all)
      then show ?thesis
        unfolding step using odd by (simp add: e class_indices_Cons add.assoc)
    qed
  qed
qed

lemma split_in_three: "xs = take a xs @ take b (drop a xs) @ drop (a + b) xs"
proof -
  have "drop a xs = take b (drop a xs) @ drop b (drop a xs)"
    by (rule append_take_drop_id [symmetric])
  also have "drop b (drop a xs) = drop (a + b) xs" by (simp add: add.commute)
  finally have "take a xs @ drop a xs = take a xs @ take b (drop a xs) @ drop (a + b) xs"
    by (rule arg_cong)
  then show ?thesis by (simp only: append_take_drop_id)
qed

lemma length_resize: "length (resize xs n) = n"
  by (simp add: resize_def)

lemma fill_indices_value:
  "\<exists>winding_map'.
     fill_indices hoard indices winding_map
       = Some (odd_indices hoard @ even_non_zero_indices hoard @ zero_indices hoard, winding_map',
               length (odd_indices hoard),
               length (odd_indices hoard) + length (even_non_zero_indices hoard))"
proof -
  let ?od = "odd_indices hoard" and ?ev = "even_non_zero_indices hoard"
    and ?ze = "zero_indices hoard"
  let ?n = "length ?od + length ?ev + length ?ze"
  let ?dest = "resize indices ?n"
  have cnt: "count_indices hoard (0, 0, 0, 0) = (?n, length ?od, length ?ev, length ?ze)"
    by (simp add: count_indices_eq)
  define X1 where "X1 = take (length ?od) ?dest"
  define X2 where "X2 = take (length ?ev) (drop (length ?od) ?dest)"
  define X3 where "X3 = drop (length ?od + length ?ev) ?dest"
  have l: "length X1 = length ?od" "length X2 = length ?ev" "length X3 = length ?ze"
    by (simp_all add: X1_def X2_def X3_def length_resize)
  have d: "?dest = [] @ X1 @ [] @ X2 @ [] @ X3"
    unfolding X1_def X2_def X3_def append_Nil
    by (rule split_in_three)
  have "\<exists>wm'. fill_loop hoard (0, length ?od, length ?ev + length ?od, ?dest, winding_map)
          = Some (0 + length ?od, length ?od + length ?ev, length ?ev + length ?od + length ?ze,
                  [] @ ?od @ [] @ ?ev @ [] @ ?ze, wm')"
    by (rule fill_loop_layout [OF l _ _ _ d]) (simp_all add: l)
  then obtain wm' where
    "fill_loop hoard (0, length ?od, length ?ev + length ?od, ?dest, winding_map)
          = Some (length ?od, length ?od + length ?ev, length ?ev + length ?od + length ?ze,
                  ?od @ ?ev @ ?ze, wm')"
    by auto
  then have "fill_indices hoard indices winding_map
      = Some (?od @ ?ev @ ?ze, wm', length ?od, length ?od + length ?ev)"
    by (simp add: fill_indices_def cnt)
  then show ?thesis by blast
qed

text \<open>
  Claim C5.  For every map of components, every index vector and every winding map
  handed in, \<open>fill_indices\<close> returns (no copy leaves the buffer), and the buffer it
  returns is the indices of the odd windings, then those of the even windings other
  than zero, then those of winding zero, each class in the order of the map.
  \<open>even_non_zero_start\<close> and \<open>zero_start\<close> are the positions where the second and the
  third range begin, so the indices of the non-zero fill rule are the prefix up to
  \<open>zero_start\<close>, those of the odd-even fill rule the prefix up to
  \<open>even_non_zero_start\<close>, those of the complement of odd-even the suffix from
  \<open>even_non_zero_start\<close> and those of the complement of non-zero the suffix from
  \<open>zero_start\<close>.
\<close>

theorem fill_indices_ranges:
  "\<exists>buffer winding_map' even_non_zero_start zero_start.
     fill_indices hoard indices winding_map
       = Some (buffer, winding_map', even_non_zero_start, zero_start)
     \<and> buffer = odd_indices hoard @ even_non_zero_indices hoard @ zero_indices hoard
     \<and> even_non_zero_start = length (odd_indices hoard)
     \<and> zero_start = length (odd_indices hoard) + length (even_non_zero_indices hoard)
     \<and> take zero_start buffer = odd_indices hoard @ even_non_zero_indices hoard
     \<and> take even_non_zero_start buffer = odd_indices hoard
     \<and> drop even_non_zero_start buffer = even_non_zero_indices hoard @ zero_indices hoard
     \<and> drop zero_start buffer = zero_indices hoard"
proof -
  obtain wm' where
    "fill_indices hoard indices winding_map
       = Some (odd_indices hoard @ even_non_zero_indices hoard @ zero_indices hoard, wm',
               length (odd_indices hoard),
               length (odd_indices hoard) + length (even_non_zero_indices hoard))"
    using fill_indices_value by blast
  then show ?thesis by simp
qed

section \<open>The builder of a square, evaluated\<close>

lemma discretize_square:
  "discretize_points g' square_contour ([], 0, new_PointHoard (0, 0) (2 ^ 24, 2 ^ 24))
     = (square_vertices, 4, square_hoard)"
  if "scaled g' = (\<lambda>p. (\<lfloor>fst p\<rfloor>, \<lfloor>snd p\<rfloor>))"
  using that
  by (simp add: iapply_def clamp_int_def box_dim_def log2_box_dim_def
      fetch_discretized_def Let_def new_PointHoard_def contour_of_def square_hoard_def square_vertices_def
      square_contour_def numeral_2_eq_2 numeral_3_eq_3)

lemma pop_square: "pop_repeated_tail (square_vertices) 4 = (square_vertices, 4)"
  by (subst pop_repeated_tail.simps) (simp add: contour_of_def square_vertices_def)

lemma unloop_square: "unloop_contour (square_vertices) [] = [square_vertices]"
  by (simp add: unloop_contour_def contour_of_def square_vertices_def)

lemma reduce_square: "reduce_contour (square_vertices) = (square_vertices, 0)"
  by (simp add: reduce_contour_def contour_of_def square_vertices_def boundary_progress_def corner_def
      on_min_x_boundary_def on_max_x_boundary_def on_min_y_boundary_def on_max_y_boundary_def)

lemma generate_contour_square:
  assumes "scaled g' = (\<lambda>p. (\<lfloor>fst p\<rfloor>, \<lfloor>snd p\<rfloor>))"
  shows "generate_contour g' square_contour (new_PointHoard (0, 0) (2 ^ 24, 2 ^ 24))
           = (square_vertices, square_hoard)"
  unfolding generate_contour_def discretize_square [OF assms] prod.case
  by (simp add: pop_square)

lemma square_vertices_nonempty: "square_vertices \<noteq> []"
  by (simp add: contour_of_def square_vertices_def)

lemma add_reduced_square:
  "add_reduced [square_vertices] 0 [] = (0, [square_vertices])"
proof -
  have nz: "square_vertices \<noteq> []" by (simp add: contour_of_def square_vertices_def)
  show ?thesis
    unfolding add_reduced.simps reduce_square prod.case Let_def using nz
    by (simp add: reduce_square)
qed

lemma add_contour_to_path_square:
  assumes "scaled g' = (\<lambda>p. (\<lfloor>fst p\<rfloor>, \<lfloor>snd p\<rfloor>))"
  shows "add_contour_to_path g' square_contour ([], new_PointHoard (0, 0) (2 ^ 24, 2 ^ 24))
           = (0, [square_vertices], square_hoard)"
  unfolding add_contour_to_path_def snd_conv fst_conv generate_contour_square [OF assms]
    prod.case Let_def
  by (simp add: unloop_square reduce_square square_vertices_nonempty)

lemma generate_path_square:
  assumes "scaled g' = (\<lambda>p. (\<lfloor>fst p\<rfloor>, \<lfloor>snd p\<rfloor>))"
  shows "generate_path g' square_path (new_PointHoard (0, 0) (2 ^ 24, 2 ^ 24))
           = (0, [square_vertices], square_hoard)"
proof -
  have c: "m_contours square_path = [square_contour]" by (simp add: square_path_def)
  show ?thesis
    unfolding generate_path_def c generate_path_loop.simps
      add_contour_to_path_square [OF assms] prod.case Let_def
    by (simp add: add_contour_to_path_square [OF assms])
qed

lemma add_path_square:
  "\<exists>sent. add_path square_hoard [square_vertices] (0, []) = Some (4, sent)"
proof -
  have v: "\<forall>q\<in>set (square_vertices). m_vertex q < length (m_ipts square_hoard)"
    by (simp add: contour_of_def square_hoard_def square_vertices_def)
  have b: "0 + length (square_vertices) < 2 ^ 32"
    by (simp add: contour_of_def square_vertices_def)
  from add_contour_sent [OF v b, of "[]"] show ?thesis
    by (simp add: contour_of_def square_vertices_def)
qed

lemma builder_tesser_square:
  assumes "scaled g' = (\<lambda>p. (\<lfloor>fst p\<rfloor>, \<lfloor>snd p\<rfloor>))"
  shows "\<exists>sent. builder_tesser g' square_path = run_callbacks g' (callbacks g' sent) square_tesser"
proof -
  from add_path_square obtain sent
    where "add_path square_hoard [square_vertices] (0, []) = Some (4, sent)" by blast
  then have "builder_tesser g' square_path = run_callbacks g' (callbacks g' sent) square_tesser"
    unfolding builder_tesser_def
    by (simp add: square_path_def [THEN arg_cong, of m_bounds_min]
        square_path_def [THEN arg_cong, of m_bounds_max]
        generate_path_square [OF assms, simplified] new_tesser_def square_tesser_def)
  then show ?thesis ..
qed


section \<open>The square root of doubles\<close>

lemma round_to_even_near: "\<bar>of_int (round_to_even x) - x\<bar> \<le> 1 / 2"
  unfolding round_to_even_def Let_def by (auto; linarith)

lemma binary64_accurate:
  assumes "0 < x"
  shows "\<bar>binary64 x - x\<bar> \<le> x / 2 ^ 53"
proof -
  define e where "e = \<lfloor>log 2 x\<rfloor>"
  define ulp :: real where "ulp = 2 powr (of_int e - 52)"
  have up: "0 < ulp" by (simp add: ulp_def)
  have "of_int e \<le> log 2 x" by (simp add: e_def)
  then have "2 powr (of_int e) \<le> x" using assms by (simp add: le_log_iff)
  moreover have "ulp = 2 powr (of_int e) / 2 ^ 52"
    by (simp add: ulp_def powr_diff powr_numeral [symmetric] del: powr_numeral)
  ultimately have ux: "ulp / 2 \<le> x / 2 ^ 53" by simp
  have b: "binary64 x = of_int (round_to_even (x / ulp)) * ulp"
    using assms by (simp add: binary64_def ulp_def e_def Let_def)
  have "of_int (round_to_even (x / ulp)) * ulp - x = (of_int (round_to_even (x / ulp)) - x / ulp) * ulp"
    using up by (simp add: field_simps)
  then have "\<bar>binary64 x - x\<bar> = \<bar>of_int (round_to_even (x / ulp)) - x / ulp\<bar> * ulp"
    unfolding b using up by (simp only: abs_mult abs_of_pos)
  also have "\<dots> \<le> (1 / 2) * ulp"
    using round_to_even_near [of "x / ulp"] up by (intro mult_right_mono) simp_all
  finally show ?thesis using ux by simp
qed

lemma double_sqrt_accurate:
  assumes "0 \<le> x"
  shows "\<bar>double_sqrt x - sqrt x\<bar> \<le> sqrt x / 2 ^ 53"
proof (cases "x = 0")
  case True
  then show ?thesis by (simp add: double_sqrt_def binary64_def)
next
  case False
  with assms have "0 < sqrt x" by simp
  from binary64_accurate [OF this] show ?thesis by (simp add: double_sqrt_def)
qed

lemma double_sqrt_sliver: "double_sqrt 104857579680001 = 1310719873 / 128"
proof -
  let ?s = "sqrt 104857579680001"
  let ?K = "5497557606203392 :: int"
  have lo: "1310719873 / 128 < ?s"
    by (rule real_less_rsqrt) (simp add: power2_eq_square)
  have hi: "?s < 10995115212406785 / 1073741824"
    by (rule real_less_lsqrt) (simp_all add: power2_eq_square)
  have "2 ^ 23 \<le> ?s" "?s < 2 ^ 24" using lo hi by simp_all
  then have "of_int 23 \<le> log 2 ?s" "log 2 ?s < of_int 23 + 1"
    by (simp_all add: le_log_iff log_less_iff powr_numeral [symmetric] del: powr_numeral)
  then have e: "\<lfloor>log 2 ?s\<rfloor> = 23" by (subst floor_eq_iff) simp
  have ulp: "2 powr (of_int 23 - 52 :: real) = 1 / 2 ^ 29"
    by (simp add: powr_minus_divide [of 2 29])
  have fl: "\<lfloor>?s * 2 ^ 29\<rfloor> = ?K"
    using lo hi by (subst floor_eq_iff) simp
  have fr: "?s * 2 ^ 29 - of_int ?K < 1 / 2" using hi by simp
  have r: "round_to_even (?s * 2 ^ 29) = ?K"
    unfolding round_to_even_def Let_def fl using fr by simp
  have pos: "?s \<noteq> 0" using lo by simp
  have "binary64 ?s = of_int ?K * (1 / 2 ^ 29)"
    unfolding binary64_def Let_def using pos
    by (simp add: abs_of_pos e ulp r [simplified] del: of_int_numeral)
  then show ?thesis by (simp add: double_sqrt_def)
qed

lemma sliver_values:
  "squared_length sliver_hoard 0 1 = 104857579680001"
  "squared_length sliver_hoard 0 2 = 104333947208930"
  "squared_length sliver_hoard 1 2 = 655376129"
  "twice_area sliver_hoard 0 1 2 = 1310719873"
  "length (m_ipts sliver_hoard) = 3"
  by (simp_all add: squared_length_def twice_area_def sliver_hoard_def)

lemma double_sqrt_below:
  assumes "0 \<le> x" "x \<le> b\<^sup>2" "0 \<le> b"
  shows "double_sqrt x \<le> b + b / 2 ^ 53"
proof -
  from assms have s: "sqrt x \<le> b" by (simp add: real_le_lsqrt)
  from double_sqrt_accurate [OF assms(1)] have "double_sqrt x \<le> sqrt x + sqrt x / 2 ^ 53"
    by linarith
  also have "\<dots> \<le> b + b / 2 ^ 53" using s by (simp add: add_mono divide_right_mono)
  finally show ?thesis .
qed

lemma sliver_accepted: "triangle_accepted double_glu sliver_hoard 0 1 2"
proof -
  have w: "double_sqrt 104333947208930 \<le> 10214400 + 10214400 / 2 ^ 53"
    by (rule double_sqrt_below) simp_all
  have u: "double_sqrt 655376129 \<le> 25601 + 25601 / 2 ^ 53"
    by (rule double_sqrt_below) simp_all
  have "2 ^ 7 * double_sqrt 104857579680001 \<le> (1310719873 :: real)"
    by (simp add: double_sqrt_sliver)
  moreover have "2 ^ 7 * double_sqrt 104333947208930 \<le> (1310719873 :: real)"
    using w by simp
  moreover have "2 ^ 7 * double_sqrt 655376129 \<le> (1310719873 :: real)"
    using u by simp
  ultimately show ?thesis
    unfolding triangle_accepted_def sliver_values
    by (simp add: double_glu_def silent_glu_def)
qed

lemma double_glu_accurate: "sqrt_accurate double_glu h a b c"
proof -
  have n: "0 \<le> real_of_int (squared_length h x y)" for x y
    by (simp add: squared_length_def)
  have t: "t_sqrt double_glu = double_sqrt" by (simp add: double_glu_def)
  show ?thesis
    unfolding sqrt_accurate_def t by (intro conjI double_sqrt_accurate n)
qed

section \<open>A triangle of the square\<close>

lemma silent_glu_fields:
  "scaled silent_glu = (\<lambda>p. (\<lfloor>fst p\<rfloor>, \<lfloor>snd p\<rfloor>))" "callbacks silent_glu sent = []"
  "t_sqrt silent_glu = sqrt" "nullptr_CLIENT_ID silent_glu = 2 ^ 32 - 1"
  by (simp_all add: silent_glu_def)

lemma sqrt_values: "sqrt 16000000 = 4000" "sqrt 25000000 = 5000" "sqrt 9000000 = 3000"
  by (rule real_sqrt_unique; simp)+

lemma square_begin:
  "m_temp_vert_count (begin_callBack 1 square_tesser) = 0"
  "length (m_temp_verts (begin_callBack 1 square_tesser)) = 3"
  "m_current_indices (begin_callBack 1 square_tesser) = Some 1"
  "map_of (m_hoard (begin_callBack 1 square_tesser)) 1 = Some new_WindingComponentData"
  "m_points (begin_callBack 1 square_tesser) = square_hoard"
  "map_of (m_hoard (begin_callBack 1 square_tesser)) = [1 \<mapsto> new_WindingComponentData]"
  by (auto simp: begin_callBack_def square_tesser_def Let_def)

lemma square_edges:
  "squared_length square_hoard 0 1 = 16000000" "squared_length square_hoard 0 2 = 25000000"
  "squared_length square_hoard 1 2 = 9000000" "twice_area square_hoard 0 1 2 = 12000000"
  "length (m_ipts square_hoard) = 4"
  by (simp_all add: squared_length_def twice_area_def square_hoard_def)

lemma square_accepted:
  "triangle_accepted silent_glu square_hoard 0 1 2"
  "\<not> triangle_accepted silent_glu square_hoard 0 1 1"
  unfolding triangle_accepted_def square_edges
  by (simp_all add: sqrt_values silent_glu_fields)

lemma square_sqrt_accurate: "sqrt_accurate silent_glu square_hoard a b c"
  by (simp add: sqrt_accurate_def silent_glu_fields squared_length_def)

theorem vertex_callBack_triangle_witness:
  "(\<exists>p'. run_callbacks silent_glu [Vertex_cb 0, Vertex_cb 1, Vertex_cb 2]
            (begin_callBack 1 square_tesser) = Some p'
         \<and> map_of (m_hoard p') = [1 \<mapsto> new_WindingComponentData\<lparr>m_triangles := [0, 1, 2]\<rparr>])
   \<and> (\<exists>p'. run_callbacks silent_glu [Vertex_cb 0, Vertex_cb 1, Vertex_cb 1]
            (begin_callBack 1 square_tesser) = Some p'
         \<and> map_of (m_hoard p') = [1 \<mapsto> new_WindingComponentData])
   \<and> (\<exists>p'. run_callbacks double_glu [Vertex_cb 0, Vertex_cb 1, Vertex_cb 2] sliver_tesser = Some p'
         \<and> map_of (m_hoard p') = [0 \<mapsto> new_WindingComponentData\<lparr>m_triangles := [0, 1, 2]\<rparr>]
         \<and> altitudes_at_least sliver_hoard 0 1 2 (2 ^ 7 * (1 - 1 / 2 ^ 53)))"
proof -
  let ?p = "begin_callBack 1 square_tesser"
  have sq: "\<And>a b c. sqrt_accurate silent_glu (m_points ?p) a b c"
    unfolding square_begin by (rule square_sqrt_accurate)
  have v1: "\<forall>i\<in>{0, 1, 2}. i \<noteq> nullptr_CLIENT_ID silent_glu \<longrightarrow> i < length (m_ipts (m_points ?p))"
    by (simp add: square_begin square_edges)
  have v2: "\<forall>i\<in>{0, 1, 1}. i \<noteq> nullptr_CLIENT_ID silent_glu \<longrightarrow> i < length (m_ipts (m_points ?p))"
    by (simp add: square_begin square_edges)
  have t: "m_triangles new_WindingComponentData @ [0, 1, 2] = [0, 1, 2]"
    by (simp add: new_WindingComponentData_def)
  have u: "[1 \<mapsto> new_WindingComponentData](1 \<mapsto> new_WindingComponentData\<lparr>m_triangles := [0, 1, 2]\<rparr>)
             = [1 \<mapsto> new_WindingComponentData\<lparr>m_triangles := [0, 1, 2]\<rparr>]"
    by simp
  have f: "m_temp_vert_count sliver_tesser = 0" "length (m_temp_verts sliver_tesser) = 3"
    "m_current_indices sliver_tesser = Some 0"
    "map_of (m_hoard sliver_tesser) 0 = Some new_WindingComponentData"
    "\<forall>i\<in>{0, 1, 2}. i \<noteq> nullptr_CLIENT_ID double_glu
        \<longrightarrow> i < length (m_ipts (m_points sliver_tesser))"
    and pts: "m_points sliver_tesser = sliver_hoard"
      "map_of (m_hoard sliver_tesser) = [0 \<mapsto> new_WindingComponentData]"
    by (simp_all add: sliver_tesser_def sliver_values)
  have u3: "[0 \<mapsto> new_WindingComponentData](0 \<mapsto> new_WindingComponentData\<lparr>m_triangles := [0, 1, 2]\<rparr>)
             = [0 \<mapsto> new_WindingComponentData\<lparr>m_triangles := [0, 1, 2]\<rparr>]"
    by simp
  note T1 = vertex_callBack_triangle [OF square_begin(1,2,3,4) v1 sq,
      unfolded square_begin(5,6) if_P [OF square_accepted(1)] t u]
  note T2 = vertex_callBack_triangle [OF square_begin(1,2,3,4) v2 sq,
      unfolded square_begin(5,6) if_not_P [OF square_accepted(2)]]
  note T3 = vertex_callBack_triangle [OF f double_glu_accurate,
      unfolded pts if_P [OF sliver_accepted] t u3]
  from T1 have a: "\<exists>p'. run_callbacks silent_glu [Vertex_cb 0, Vertex_cb 1, Vertex_cb 2] ?p = Some p'
         \<and> map_of (m_hoard p') = [1 \<mapsto> new_WindingComponentData\<lparr>m_triangles := [0, 1, 2]\<rparr>]"
    by (elim exE conjE) (rule exI, erule conjI, assumption)
  from T2 have b: "\<exists>p'. run_callbacks silent_glu [Vertex_cb 0, Vertex_cb 1, Vertex_cb 1] ?p = Some p'
         \<and> map_of (m_hoard p') = [1 \<mapsto> new_WindingComponentData]"
    by (elim exE conjE) (rule exI, erule conjI, assumption)
  from T3 obtain p' where
    r: "run_callbacks double_glu [Vertex_cb 0, Vertex_cb 1, Vertex_cb 2] sliver_tesser = Some p'"
    and m: "map_of (m_hoard p') = [0 \<mapsto> new_WindingComponentData\<lparr>m_triangles := [0, 1, 2]\<rparr>]"
    and thin: "triangle_accepted double_glu sliver_hoard 0 1 2
                \<longrightarrow> 0 \<noteq> nullptr_CLIENT_ID double_glu \<and> 1 \<noteq> nullptr_CLIENT_ID double_glu
                  \<and> 2 \<noteq> nullptr_CLIENT_ID double_glu
                  \<and> (0 :: nat) \<noteq> 1 \<and> (0 :: nat) \<noteq> 2 \<and> (1 :: nat) \<noteq> 2
                  \<and> twice_area sliver_hoard 0 1 2 \<noteq> 0
                  \<and> altitudes_at_least sliver_hoard 0 1 2 (2 ^ 7 * (1 - 1 / 2 ^ 53))"
    by (elim exE conjE)
  from thin sliver_accepted
  have "altitudes_at_least sliver_hoard 0 1 2 (2 ^ 7 * (1 - 1 / 2 ^ 53))" by (elim impE conjE)
  with r m
  have c: "\<exists>p'. run_callbacks double_glu [Vertex_cb 0, Vertex_cb 1, Vertex_cb 2] sliver_tesser = Some p'
         \<and> map_of (m_hoard p') = [0 \<mapsto> new_WindingComponentData\<lparr>m_triangles := [0, 1, 2]\<rparr>]
         \<and> altitudes_at_least sliver_hoard 0 1 2 (2 ^ 7 * (1 - 1 / 2 ^ 53))"
    by (intro exI [of _ p'] conjI)
  from a b c show ?thesis by (intro conjI)
qed

section \<open>A triangle with an altitude below \<open>2 ^ 7\<close> that is appended\<close>

text \<open>
  Claim C4 as written fails.  The points \<open>(1, 1)\<close>, \<open>(10240000, 401)\<close> and
  \<open>(10214400, 528)\<close> of the grid make a triangle of twice the area 1310719873, which is
  \<open>2 ^ 7 * 10239999.0078125\<close>; its first edge has the squared length 104857579680001
  and so a length above 10239999.0078125, and the altitude on this edge is below
  \<open>2 ^ 7\<close>.  The square root of doubles rounds the length to 10239999.0078125, the
  comparison \<open>two_area < min_height * vmag\<close> is between equal numbers, and the
  triangle is appended.
\<close>

theorem vertex_callBack_sliver_appended:
  "run_callbacks double_glu [Vertex_cb 0, Vertex_cb 1, Vertex_cb 2] sliver_tesser \<noteq> None
   \<and> map_of (m_hoard (the (run_callbacks double_glu [Vertex_cb 0, Vertex_cb 1, Vertex_cb 2]
                             sliver_tesser))) 0
       = Some (new_WindingComponentData\<lparr>m_triangles := [0, 1, 2]\<rparr>)
   \<and> twice_area sliver_hoard 0 1 2 \<noteq> 0
   \<and> real_of_int (twice_area sliver_hoard 0 1 2)
       < 2 ^ 7 * sqrt (real_of_int (squared_length sliver_hoard 0 1))
   \<and> \<not> altitudes_at_least sliver_hoard 0 1 2 (2 ^ 7)"
proof -
  have f: "m_temp_vert_count sliver_tesser = 0" "length (m_temp_verts sliver_tesser) = 3"
    "m_current_indices sliver_tesser = Some 0"
    "map_of (m_hoard sliver_tesser) 0 = Some new_WindingComponentData"
    "\<forall>i\<in>{0, 1, 2}. i \<noteq> nullptr_CLIENT_ID double_glu
        \<longrightarrow> i < length (m_ipts (m_points sliver_tesser))"
    and pts: "m_points sliver_tesser = sliver_hoard"
    by (simp_all add: sliver_tesser_def sliver_values)
  from vertex_group_run [OF f] obtain p' where
    run: "run_callbacks double_glu [Vertex_cb 0, Vertex_cb 1, Vertex_cb 2] sliver_tesser = Some p'"
    and m: "map_of (m_hoard p') =
               (if triangle_accepted double_glu (m_points sliver_tesser) 0 1 2
                then (map_of (m_hoard sliver_tesser))
                       (0 \<mapsto> new_WindingComponentData
                              \<lparr>m_triangles := m_triangles new_WindingComponentData @ [0, 1, 2]\<rparr>)
                else map_of (m_hoard sliver_tesser))"
    by (elim exE conjE)
  from m sliver_accepted have "map_of (m_hoard p') 0
       = Some (new_WindingComponentData\<lparr>m_triangles := [0, 1, 2]\<rparr>)"
    by (simp add: pts new_WindingComponentData_def)
  moreover have lt: "real_of_int (twice_area sliver_hoard 0 1 2)
       < 2 ^ 7 * sqrt (real_of_int (squared_length sliver_hoard 0 1))"
  proof -
    have "1310719873 / 128 < sqrt 104857579680001"
      by (rule real_less_rsqrt) (simp add: power2_eq_square)
    then show ?thesis unfolding sliver_values by simp
  qed
  moreover from lt have "\<not> altitudes_at_least sliver_hoard 0 1 2 (2 ^ 7)"
    by (simp add: altitudes_at_least_def)
  moreover have "twice_area sliver_hoard 0 1 2 \<noteq> 0" unfolding sliver_values by simp
  ultimately show ?thesis using run by simp
qed

section \<open>The constructor of the builder\<close>

lemma erase_empty_filter: "erase_empty H = filter (\<lambda>e. m_triangles (snd e) \<noteq> []) H"
  by (induction H) auto

lemma find_or_add_map:
  assumes "find_or_add pt ipt h = (v, h')"
  shows "m_map h' ipt = Some v" and "\<And>q w. m_map h q = Some w \<Longrightarrow> m_map h' q = Some w"
  using assms by (cases "m_map h ipt"; auto simp: find_or_add_def)+

lemma fetch_corners_props:
  assumes "hoard_inv h" "fetch_corners cs h = (is, h')"
  shows "hoard_inv h'
       \<and> is = map (\<lambda>c. the (m_map h' (corner_ipt (fst c) (snd c)))) cs
       \<and> (\<forall>q w. m_map h q = Some w \<longrightarrow> m_map h' q = Some w)
       \<and> (\<forall>c\<in>set cs. m_map h' (corner_ipt (fst c) (snd c)) \<noteq> None)"
  using assms
proof (induction cs arbitrary: h "is" h')
  case Nil
  then show ?case by simp
next
  case (Cons c cs)
  obtain mx my where c: "c = (mx, my)" by (cases c)
  obtain i h1 where 1: "fetch_corner mx my h = (i, h1)" by (cases "fetch_corner mx my h")
  obtain js h2 where 2: "fetch_corners cs h1 = (js, h2)" by (cases "fetch_corners cs h1")
  from Cons.prems(2) 1 2 have r: "is = i # js" "h' = h2" by (simp_all add: c)
  from 1 have fa: "find_or_add (corner_position h mx my) (corner_ipt mx my) h = (i, h1)"
    by (simp add: fetch_corner_find)
  from fetch_corner_inv [OF Cons.prems(1), of mx my] 1 have inv1: "hoard_inv h1" by simp
  note m1 = find_or_add_map [OF fa]
  from Cons.IH [OF inv1 2]
  have ih: "hoard_inv h2" "js = map (\<lambda>c. the (m_map h2 (corner_ipt (fst c) (snd c)))) cs"
    "\<And>q w. m_map h1 q = Some w \<Longrightarrow> m_map h2 q = Some w"
    "\<forall>c\<in>set cs. m_map h2 (corner_ipt (fst c) (snd c)) \<noteq> None"
    by blast+
  have here: "m_map h2 (corner_ipt mx my) = Some i"
    by (rule ih(3) [OF m1(1)])
  have grow: "\<forall>q w. m_map h q = Some w \<longrightarrow> m_map h2 q = Some w"
    using ih(3) m1(2) by blast
  show ?case
    unfolding r using ih(1,2,4) here grow by (simp add: c)
qed


lemma add_contour_to_path_points:
  "snd (snd (add_contour_to_path g C st)) = snd (generate_contour g C (snd st))"
  by (simp add: add_contour_to_path_def split: prod.splits)

lemma vertex_callBack_points:
  assumes "vertex_callBack g v p = Some p'"
  shows "m_points p' = m_points p"
proof -
  define q where "q = (if v = nullptr_CLIENT_ID g then p\<lparr>m_triangulation_failed := True\<rparr> else p)"
  define r where "r = q\<lparr>m_temp_verts := (m_temp_verts q)[m_temp_vert_count q := v],
                          m_temp_vert_count := m_temp_vert_count q + 1\<rparr>"
  have q: "m_points q = m_points p" by (simp add: q_def)
  have r: "m_points r = m_points p" by (simp add: r_def q)
  from assms have "m_temp_vert_count q < 3"
    unfolding vertex_callBack_def q_def [symmetric] by (auto simp: Let_def split: if_splits)
  with assms have v: "(if m_temp_vert_count r = 3
                  then (let p = r\<lparr>m_temp_vert_count := 0\<rparr>; t = m_temp_verts p
                        in if t ! 0 \<noteq> nullptr_CLIENT_ID g \<and> t ! 1 \<noteq> nullptr_CLIENT_ID g
                              \<and> t ! 2 \<noteq> nullptr_CLIENT_ID g
                           then (case temp_verts_non_degenerate_triangle g p of
                                   None \<Rightarrow> None
                                 | Some False \<Rightarrow> Some p
                                 | Some True \<Rightarrow>
                                     (case m_current_indices p of
                                        None \<Rightarrow> None
                                      | Some k \<Rightarrow>
                                          Some (p\<lparr>m_hoard :=
                                            update_component k
                                              (\<lambda>c. c\<lparr>m_triangles := m_triangles c @ [t ! 0, t ! 1, t ! 2]\<rparr>)
                                              (m_hoard p)\<rparr>)))
                           else Some p)
                  else Some r) = Some p'"
    unfolding vertex_callBack_def q_def [symmetric] Let_def r_def [symmetric] by simp
  show ?thesis
  proof (cases "m_temp_vert_count r = 3")
    case False
    with v r show ?thesis by auto
  next
    case True
    with v r show ?thesis
      by (auto simp: Let_def split: if_splits option.splits bool.splits)
  qed
qed

lemma emitmonotone_callback_points:
  assumes "emitmonotone_callback w vs ws p = Some p'"
  shows "m_points p' = m_points p"
  using assms by (auto simp: emitmonotone_callback_def Let_def split: option.splits)

lemma discretize_points_inv:
  "hoard_inv h \<Longrightarrow> hoard_inv (snd (snd (discretize_points g C (out, sz, h))))"
proof (induction C arbitrary: out sz h)
  case Nil
  then show ?case by simp
next
  case (Cons q C)
  obtain I h1 where f: "fetch_discretized (position q) (iapply g (position q)) (flags q) h = (I, h1)"
    by (cases "fetch_discretized (position q) (iapply g (position q)) (flags q) h")
  from fetch_discretized_inv [OF Cons.prems, of "position q" "iapply g (position q)" "flags q"] f
  have "hoard_inv h1" by simp
  from Cons.IH [OF this] show ?case by (simp add: f)
qed

lemma generate_contour_inv:
  assumes "hoard_inv h"
  shows "hoard_inv (snd (generate_contour g C h))"
  using discretize_points_inv [OF assms, of g C "[]" 0]
  by (auto simp: generate_contour_def split: prod.splits)

lemma add_contour_to_path_inv:
  assumes "hoard_inv (snd st)"
  shows "hoard_inv (snd (snd (add_contour_to_path g C st)))"
  using generate_contour_inv [OF assms, of g C]
  by (simp add: add_contour_to_path_points)

lemma generate_path_loop_inv:
  "hoard_inv h \<Longrightarrow> hoard_inv (snd (snd (generate_path_loop g Cs (w, out, h))))"
proof (induction Cs arbitrary: w out h)
  case Nil
  then show ?case by simp
next
  case (Cons C Cs)
  obtain w1 out1 h1 where a: "add_contour_to_path g C (out, h) = (w1, out1, h1)"
    by (cases "add_contour_to_path g C (out, h)")
  from add_contour_to_path_inv [of "(out, h)" g C] Cons.prems a have "hoard_inv h1" by simp
  from Cons.IH [OF this] show ?case by (simp add: a)
qed

lemma generate_path_inv:
  "hoard_inv h \<Longrightarrow> hoard_inv (snd (snd (generate_path g P h)))"
  by (simp add: generate_path_def generate_path_loop_inv)

lemma new_builder_eq:
  "new_builder g P = map_option (builder_finish (builder_winding_offset g P)) (builder_tesser g P)"
  by (simp add: new_builder_def builder_tesser_def builder_winding_offset_def
      split: prod.splits option.splits)

lemma builder_finish_keep:
  assumes "erase_empty (m_hoard T) \<noteq> []"
  shows "builder_hoard (builder_finish w T) = erase_empty (m_hoard T)"
    and "builder_points (builder_finish w T) = m_points T"
  using assms by (simp_all add: builder_finish_def Let_def)

lemma builder_finish_fallback:
  assumes "erase_empty (m_hoard T) = []"
  shows "builder_hoard (builder_finish w T)
           = [(w, new_WindingComponentData
                    \<lparr>m_triangles := fst (fetch_corners rectangle_corners (m_points T))\<rparr>)]"
    and "builder_points (builder_finish w T) = snd (fetch_corners rectangle_corners (m_points T))"
  using assms
  by (simp_all add: builder_finish_def Let_def rectangle_corners_def split: prod.splits)


lemma callback_inv:
  assumes "hoard_inv (m_points p)" "callback g e p = Some p'"
  shows "hoard_inv (m_points p')"
proof (cases e)
  case (Begin_cb w)
  with assms show ?thesis by (auto simp: begin_callBack_def Let_def)
next
  case (Vertex_cb v)
  with assms vertex_callBack_points [of g v p p'] show ?thesis
    by simp
next
  case (Combine_cb pt)
  with assms fetch_undiscretized_inv [OF assms(1), of pt "iapply g pt"] show ?thesis
    by (auto simp: combine_callback_def)
next
  case (Boundary_cb mx my)
  with assms fetch_corner_inv [OF assms(1), of mx my] show ?thesis
    by (auto simp: boundary_callback_def)
next
  case (EmitMonotone_cb w vs ws)
  with assms emitmonotone_callback_points [of w vs ws p p'] show ?thesis
    by simp
qed

lemma run_callbacks_inv:
  "hoard_inv (m_points p) \<Longrightarrow> run_callbacks g es p = Some p' \<Longrightarrow> hoard_inv (m_points p')"
proof (induction es arbitrary: p)
  case Nil
  then show ?case by simp
next
  case (Cons e es)
  from Cons.prems(2) obtain p1 where 1: "callback g e p = Some p1" "run_callbacks g es p1 = Some p'"
    by (auto split: option.splits)
  from Cons.IH [OF callback_inv [OF Cons.prems(1) 1(1)] 1(2)] show ?case .
qed

lemma new_tesser_inv:
  assumes "hoard_inv h" "new_tesser g h P w H = Some T"
  shows "hoard_inv (m_points T)"
proof -
  from assms(2) obtain cnt sent where
    "run_callbacks g (callbacks g sent)
       \<lparr>m_point_count = cnt, m_points = h, m_temp_verts = [0, 0, 0],
        m_temp_vert_count = 3, m_triangulation_failed = False, m_current_winding = 0,
        m_winding_offset = w, m_current_indices = None, m_hoard = H\<rparr> = Some T"
    by (auto simp: new_tesser_def split: option.splits)
  then show ?thesis
    by (rule run_callbacks_inv [rotated]) (simp add: assms(1))
qed

lemma builder_tesser_inv:
  assumes "builder_tesser g P = Some T"
  shows "hoard_inv (m_points T)"
proof -
  let ?h0 = "new_PointHoard (m_bounds_min P) (m_bounds_max P)"
  obtain w path h where gp: "generate_path g P ?h0 = (w, path, h)"
    by (cases "generate_path g P ?h0")
  from generate_path_inv [OF new_PointHoard_inv, of g P "m_bounds_min P" "m_bounds_max P"] gp
  have "hoard_inv h" by simp
  moreover from assms gp have "new_tesser g h path w [] = Some T"
    by (simp add: builder_tesser_def)
  ultimately show ?thesis by (rule new_tesser_inv)
qed

lemma corner_ipt_inject: "corner_ipt a b = corner_ipt c d \<longleftrightarrow> a = c \<and> b = d"
  by (auto simp: corner_ipt_def box_dim_def log2_box_dim_def split: if_splits)

lemma find_or_add_bounds:
  "bounds_min (snd (find_or_add pt ipt h)) = bounds_min h"
  "bounds_max (snd (find_or_add pt ipt h)) = bounds_max h"
  by (simp_all add: find_or_add_def split: option.splits)

lemma fetch_undiscretized_bounds:
  "bounds_min (snd (fetch_undiscretized pt ipt h)) = bounds_min h"
  "bounds_max (snd (fetch_undiscretized pt ipt h)) = bounds_max h"
  by (simp_all add: fetch_undiscretized_def)

lemma discretize_points_bounds:
  "bounds_min (snd (snd (discretize_points g C (out, sz, h)))) = bounds_min h
   \<and> bounds_max (snd (snd (discretize_points g C (out, sz, h)))) = bounds_max h"
proof (induction C arbitrary: out sz h)
  case Nil
  then show ?case by simp
next
  case (Cons q C)
  obtain I h1 where f: "fetch_discretized (position q) (iapply g (position q)) (flags q) h = (I, h1)"
    by (cases "fetch_discretized (position q) (iapply g (position q)) (flags q) h")
  from find_or_add_bounds [of "position q" "boundary_ipt (iapply g (position q)) (flags q)" h] f
  have "bounds_min h1 = bounds_min h" "bounds_max h1 = bounds_max h"
    by (simp_all add: fetch_discretized_find)
  with Cons.IH [of _ _ h1] show ?case by (simp add: f)
qed

lemma generate_contour_bounds:
  "bounds_min (snd (generate_contour g C h)) = bounds_min h
   \<and> bounds_max (snd (generate_contour g C h)) = bounds_max h"
  using discretize_points_bounds [of g C "[]" 0 h]
  by (auto simp: generate_contour_def split: prod.splits)

lemma generate_path_loop_bounds:
  "bounds_min (snd (snd (generate_path_loop g Cs (w, out, h)))) = bounds_min h
   \<and> bounds_max (snd (snd (generate_path_loop g Cs (w, out, h)))) = bounds_max h"
proof (induction Cs arbitrary: w out h)
  case Nil
  then show ?case by simp
next
  case (Cons C Cs)
  obtain w1 out1 h1 where a: "add_contour_to_path g C (out, h) = (w1, out1, h1)"
    by (cases "add_contour_to_path g C (out, h)")
  from add_contour_to_path_points [of g C "(out, h)"] a generate_contour_bounds [of g C h]
  have "bounds_min h1 = bounds_min h" "bounds_max h1 = bounds_max h" by simp_all
  with Cons.IH [of _ _ h1] show ?case by (simp add: a)
qed

lemma callback_bounds:
  assumes "callback g e p = Some p'"
  shows "bounds_min (m_points p') = bounds_min (m_points p)
       \<and> bounds_max (m_points p') = bounds_max (m_points p)"
proof (cases e)
  case (Begin_cb w)
  with assms show ?thesis by (auto simp: begin_callBack_def Let_def)
next
  case (Vertex_cb v)
  with assms vertex_callBack_points [of g v p p'] show ?thesis
    by simp
next
  case (Combine_cb pt)
  with assms fetch_undiscretized_bounds [of pt "iapply g pt" "m_points p"] show ?thesis
    by (auto simp: combine_callback_def)
next
  case (Boundary_cb mx my)
  with assms find_or_add_bounds [of "corner_position (m_points p) mx my" "corner_ipt mx my" "m_points p"]
  show ?thesis
    by (auto simp: boundary_callback_def fetch_corner_find)
next
  case (EmitMonotone_cb w vs ws)
  with assms emitmonotone_callback_points [of w vs ws p p'] show ?thesis
    by simp
qed

lemma run_callbacks_bounds:
  "run_callbacks g es p = Some p'
     \<Longrightarrow> bounds_min (m_points p') = bounds_min (m_points p)
       \<and> bounds_max (m_points p') = bounds_max (m_points p)"
proof (induction es arbitrary: p)
  case Nil
  then show ?case by simp
next
  case (Cons e es)
  from Cons.prems obtain p1 where 1: "callback g e p = Some p1" "run_callbacks g es p1 = Some p'"
    by (auto split: option.splits)
  from Cons.IH [OF 1(2)] callback_bounds [OF 1(1)] show ?case by simp
qed

lemma builder_tesser_bounds:
  assumes "builder_tesser g P = Some T"
  shows "bounds_min (m_points T) = m_bounds_min P" "bounds_max (m_points T) = m_bounds_max P"
proof -
  let ?h0 = "new_PointHoard (m_bounds_min P) (m_bounds_max P)"
  obtain w path h where gp: "generate_path g P ?h0 = (w, path, h)"
    by (cases "generate_path g P ?h0")
  from generate_path_loop_bounds [of g "m_contours P" 0 "[]" ?h0] gp
  have h: "bounds_min h = m_bounds_min P" "bounds_max h = m_bounds_max P"
    by (simp_all add: generate_path_def new_PointHoard_def)
  from assms gp have "new_tesser g h path w [] = Some T"
    by (simp add: builder_tesser_def)
  then obtain cnt sent where
    "run_callbacks g (callbacks g sent)
       \<lparr>m_point_count = cnt, m_points = h, m_temp_verts = [0, 0, 0],
        m_temp_vert_count = 3, m_triangulation_failed = False, m_current_winding = 0,
        m_winding_offset = w, m_current_indices = None, m_hoard = []\<rparr> = Some T"
    by (auto simp: new_tesser_def split: option.splits)
  from run_callbacks_bounds [OF this] h
  show "bounds_min (m_points T) = m_bounds_min P" "bounds_max (m_points T) = m_bounds_max P"
    by simp_all
qed

lemma fetch_corners_appends:
  assumes "fetch_corners cs h = (is, h')"
  shows "\<exists>new. m_pts h' = m_pts h @ map (\<lambda>c. corner_position h (fst c) (snd c)) new
             \<and> m_ipts h' = m_ipts h @ map (\<lambda>c. corner_ipt (fst c) (snd c)) new"
  using assms
proof (induction cs arbitrary: h "is" h')
  case Nil
  then show ?case by simp
next
  case (Cons c cs)
  obtain mx my where c: "c = (mx, my)" by (cases c)
  obtain i h1 where 1: "fetch_corner mx my h = (i, h1)" by (cases "fetch_corner mx my h")
  obtain js h2 where 2: "fetch_corners cs h1 = (js, h2)" by (cases "fetch_corners cs h1")
  from Cons.prems 1 2 have r: "h' = h2" by (simp add: c)
  from 1 have fa: "find_or_add (corner_position h mx my) (corner_ipt mx my) h = (i, h1)"
    by (simp add: fetch_corner_find)
  from find_or_add_bounds [of "corner_position h mx my" "corner_ipt mx my" h] fa
  have cp: "corner_position h1 = corner_position h"
    by (simp add: corner_position_def fun_eq_iff)
  from fa have "\<exists>n1. m_pts h1 = m_pts h @ map (\<lambda>c. corner_position h (fst c) (snd c)) n1
             \<and> m_ipts h1 = m_ipts h @ map (\<lambda>c. corner_ipt (fst c) (snd c)) n1"
  proof (cases "m_map h (corner_ipt mx my)")
    case None
    with fa have "m_pts h1 = m_pts h @ map (\<lambda>c. corner_position h (fst c) (snd c)) [(mx, my)]
             \<and> m_ipts h1 = m_ipts h @ map (\<lambda>c. corner_ipt (fst c) (snd c)) [(mx, my)]"
      by (auto simp: find_or_add_def)
    then show ?thesis ..
  next
    case (Some v)
    with fa have "m_pts h1 = m_pts h @ map (\<lambda>c. corner_position h (fst c) (snd c)) []
             \<and> m_ipts h1 = m_ipts h @ map (\<lambda>c. corner_ipt (fst c) (snd c)) []"
      by (auto simp: find_or_add_def)
    then show ?thesis ..
  qed
  then obtain n1 where n1: "m_pts h1 = m_pts h @ map (\<lambda>c. corner_position h (fst c) (snd c)) n1"
    "m_ipts h1 = m_ipts h @ map (\<lambda>c. corner_ipt (fst c) (snd c)) n1" by blast
  from Cons.IH [OF 2] obtain n2 where
    n2: "m_pts h2 = m_pts h1 @ map (\<lambda>c. corner_position h1 (fst c) (snd c)) n2"
    "m_ipts h2 = m_ipts h1 @ map (\<lambda>c. corner_ipt (fst c) (snd c)) n2" by blast
  have "m_pts h' = m_pts h @ map (\<lambda>c. corner_position h (fst c) (snd c)) (n1 @ n2)
             \<and> m_ipts h' = m_ipts h @ map (\<lambda>c. corner_ipt (fst c) (snd c)) (n1 @ n2)"
    by (simp add: r n1 n2 cp)
  then show ?case ..
qed

lemma fetch_corners_position:
  assumes inv: "hoard_inv h" and fc: "fetch_corners cs h = (is, h')"
    and i: "m_map h' (corner_ipt mx my) = Some i"
  shows "m_pts h' ! i = (if i < length (m_pts h) then m_pts h ! i else corner_position h mx my)"
    and "i < length (m_pts h) \<longrightarrow> m_ipts h ! i = corner_ipt mx my"
proof -
  from fetch_corners_props [OF inv fc] have inv': "hoard_inv h'" by blast
  from inv' i have v: "i < length (m_ipts h')" "m_ipts h' ! i = corner_ipt mx my"
    unfolding hoard_inv_def by blast+
  from inv have len: "length (m_pts h) = length (m_ipts h)" by (simp add: hoard_inv_def)
  from fetch_corners_appends [OF fc] obtain new where
    n: "m_pts h' = m_pts h @ map (\<lambda>c. corner_position h (fst c) (snd c)) new"
    "m_ipts h' = m_ipts h @ map (\<lambda>c. corner_ipt (fst c) (snd c)) new" by blast
  show "i < length (m_pts h) \<longrightarrow> m_ipts h ! i = corner_ipt mx my"
    using v(2) by (auto simp: n nth_append len)
  show "m_pts h' ! i = (if i < length (m_pts h) then m_pts h ! i else corner_position h mx my)"
  proof (cases "i < length (m_pts h)")
    case True
    then show ?thesis by (simp add: n nth_append)
  next
    case False
    let ?j = "i - length (m_pts h)"
    from False v(1) have j: "?j < length new" by (simp add: n len)
    from False v(2) j have "corner_ipt (fst (new ! ?j)) (snd (new ! ?j)) = corner_ipt mx my"
      by (simp add: n nth_append len)
    then have "fst (new ! ?j) = mx \<and> snd (new ! ?j) = my" by (simp only: corner_ipt_inject)
    then have "new ! ?j = (mx, my)" by (cases "new ! ?j") simp
    with False j show ?thesis by (simp add: n nth_append)
  qed
qed

text \<open>
  Claim C6, as the code has it.  Whenever the tesser of the constructor completes, the builder is
  constructed, its map of components is not empty and no component of it has an
  empty triangle list.  When the tesser leaves no component with a triangle, the map
  is the single component keyed at the winding offset whose triangle list is the six
  vertices of the corners (max, max), (max, min), (min, min), (max, max), (min, min),
  (min, max) of the bounding box: each is a vertex of the point tables whose integer
  point is that corner of the grid.  Such a vertex is either a vertex the tables
  already had before the rectangle was made (a point of the path, or one made by the
  triangulator, with the integer point of the corner), and then it keeps the position
  it had, or it is a new vertex, and then its position is that corner of the bounding
  box of the SubPath.
\<close>

theorem builder_hoard_never_empty:
  assumes "builder_tesser g P = Some T"
  shows "\<exists>B. new_builder g P = Some B
           \<and> builder_hoard B \<noteq> []
           \<and> (\<forall>e\<in>set (builder_hoard B). m_triangles (snd e) \<noteq> [])
           \<and> ((\<forall>e\<in>set (m_hoard T). m_triangles (snd e) = []) \<longrightarrow>
                 builder_hoard B =
                   [(builder_winding_offset g P,
                     new_WindingComponentData
                       \<lparr>m_triangles :=
                          map (\<lambda>c. the (m_map (builder_points B) (corner_ipt (fst c) (snd c))))
                            rectangle_corners\<rparr>)]
               \<and> length (m_pts (builder_points B)) = length (m_ipts (builder_points B))
               \<and> (\<forall>c\<in>set rectangle_corners.
                     \<exists>i. m_map (builder_points B) (corner_ipt (fst c) (snd c)) = Some i
                       \<and> i < length (m_ipts (builder_points B))
                       \<and> m_ipts (builder_points B) ! i = corner_ipt (fst c) (snd c)
                       \<and> (if i < length (m_pts (m_points T))
                          then m_pts (builder_points B) ! i = m_pts (m_points T) ! i
                             \<and> m_ipts (m_points T) ! i = corner_ipt (fst c) (snd c)
                          else m_pts (builder_points B) ! i = bounds_corner P (fst c) (snd c))))"
proof -
  let ?w = "builder_winding_offset g P"
  let ?B = "builder_finish ?w T"
  have nb: "new_builder g P = Some ?B"
    by (simp add: new_builder_eq assms)
  have inv: "hoard_inv (m_points T)"
    by (rule builder_tesser_inv [OF assms])
  have cp: "corner_position (m_points T) mx my = bounds_corner P mx my" for mx my
    by (simp add: corner_position_def bounds_corner_def builder_tesser_bounds [OF assms])
  obtain "is" h' where fc: "fetch_corners rectangle_corners (m_points T) = (is, h')"
    by (cases "fetch_corners rectangle_corners (m_points T)")
  note props = fetch_corners_props [OF inv fc]
  have fallback: "builder_hoard ?B =
                   [(?w, new_WindingComponentData
                       \<lparr>m_triangles :=
                          map (\<lambda>c. the (m_map (builder_points ?B) (corner_ipt (fst c) (snd c))))
                            rectangle_corners\<rparr>)]
               \<and> length (m_pts (builder_points ?B)) = length (m_ipts (builder_points ?B))
               \<and> (\<forall>c\<in>set rectangle_corners.
                     \<exists>i. m_map (builder_points ?B) (corner_ipt (fst c) (snd c)) = Some i
                       \<and> i < length (m_ipts (builder_points ?B))
                       \<and> m_ipts (builder_points ?B) ! i = corner_ipt (fst c) (snd c)
                       \<and> (if i < length (m_pts (m_points T))
                          then m_pts (builder_points ?B) ! i = m_pts (m_points T) ! i
                             \<and> m_ipts (m_points T) ! i = corner_ipt (fst c) (snd c)
                          else m_pts (builder_points ?B) ! i = bounds_corner P (fst c) (snd c)))"
    if e: "erase_empty (m_hoard T) = []"
  proof -
    have pts: "builder_points ?B = h'"
      using builder_finish_fallback(2) [OF e, of ?w] fc by simp
    have hd: "builder_hoard ?B = [(?w, new_WindingComponentData\<lparr>m_triangles := is\<rparr>)]"
      using builder_finish_fallback(1) [OF e, of ?w] fc by simp
    from props have inv': "hoard_inv h'" by blast
    then have len: "length (m_pts h') = length (m_ipts h')" by (simp add: hoard_inv_def)
    have "\<exists>i. m_map h' (corner_ipt (fst c) (snd c)) = Some i
              \<and> i < length (m_ipts h') \<and> m_ipts h' ! i = corner_ipt (fst c) (snd c)
              \<and> (if i < length (m_pts (m_points T))
                 then m_pts h' ! i = m_pts (m_points T) ! i
                    \<and> m_ipts (m_points T) ! i = corner_ipt (fst c) (snd c)
                 else m_pts h' ! i = bounds_corner P (fst c) (snd c))"
      if "c \<in> set rectangle_corners" for c
    proof -
      from props that obtain i where i: "m_map h' (corner_ipt (fst c) (snd c)) = Some i"
        by auto
      from inv' i have "i < length (m_ipts h') \<and> m_ipts h' ! i = corner_ipt (fst c) (snd c)"
        unfolding hoard_inv_def by blast
      moreover from fetch_corners_position [OF inv fc i]
      have "if i < length (m_pts (m_points T))
                 then m_pts h' ! i = m_pts (m_points T) ! i
                    \<and> m_ipts (m_points T) ! i = corner_ipt (fst c) (snd c)
                 else m_pts h' ! i = bounds_corner P (fst c) (snd c)"
        by (simp add: cp)
      ultimately show ?thesis using i by blast
    qed
    with props hd len show ?thesis
      unfolding pts by blast
  qed
  show ?thesis
  proof (cases "erase_empty (m_hoard T) = []")
    case True
    have "(\<forall>e\<in>set (builder_hoard ?B). m_triangles (snd e) \<noteq> [])"
      using builder_finish_fallback(1) [OF True, of ?w]
      by (simp add: rectangle_corners_def new_WindingComponentData_def split: prod.splits)
    moreover have "builder_hoard ?B \<noteq> []"
      using builder_finish_fallback(1) [OF True, of ?w] by simp
    ultimately show ?thesis
      using nb fallback [OF True] by blast
  next
    case False
    then have keep: "builder_hoard ?B = erase_empty (m_hoard T)"
      by (rule builder_finish_keep)
    have "\<not> (\<forall>e\<in>set (m_hoard T). m_triangles (snd e) = [])"
      using False by (auto simp: erase_empty_filter filter_empty_conv)
    moreover have "\<forall>e\<in>set (builder_hoard ?B). m_triangles (snd e) \<noteq> []"
      unfolding keep by (simp add: erase_empty_filter)
    ultimately show ?thesis
      using nb False keep by auto
  qed
qed

lemma builder_tesser_silent: "builder_tesser silent_glu square_path = Some square_tesser"
  using builder_tesser_square [OF silent_glu_fields(1)] by (simp add: silent_glu_fields)

lemma builder_winding_offset_silent: "builder_winding_offset silent_glu square_path = 0"
proof -
  have "generate_path silent_glu square_path (new_PointHoard (m_bounds_min square_path) (m_bounds_max square_path))
      = (0, [square_vertices], square_hoard)"
    using generate_path_square [OF silent_glu_fields(1)] by (simp add: square_path_def)
  then show ?thesis
    unfolding builder_winding_offset_def by simp
qed

theorem builder_hoard_never_empty_witness:
  "\<exists>B. new_builder silent_glu square_path = Some B
     \<and> builder_hoard B \<noteq> []
     \<and> map fst (builder_hoard B) = [0]
     \<and> map (length \<circ> m_triangles \<circ> snd) (builder_hoard B) = [6]"
proof -
  have e: "\<forall>e\<in>set (m_hoard square_tesser). m_triangles (snd e) = []"
    by (simp add: square_tesser_def)
  from builder_hoard_never_empty [OF builder_tesser_silent]
  obtain B where B: "new_builder silent_glu square_path = Some B" "builder_hoard B \<noteq> []"
    and imp: "(\<forall>e\<in>set (m_hoard square_tesser). m_triangles (snd e) = []) \<longrightarrow>
    builder_hoard B =
       [(builder_winding_offset silent_glu square_path,
         new_WindingComponentData
           \<lparr>m_triangles :=
              map (\<lambda>c. the (m_map (builder_points B) (corner_ipt (fst c) (snd c))))
                rectangle_corners\<rparr>)]
     \<and> length (m_pts (builder_points B)) = length (m_ipts (builder_points B))
     \<and> (\<forall>c\<in>set rectangle_corners.
           \<exists>i. m_map (builder_points B) (corner_ipt (fst c) (snd c)) = Some i
             \<and> i < length (m_ipts (builder_points B))
             \<and> m_ipts (builder_points B) ! i = corner_ipt (fst c) (snd c)
             \<and> (if i < length (m_pts (m_points square_tesser))
                then m_pts (builder_points B) ! i = m_pts (m_points square_tesser) ! i
                   \<and> m_ipts (m_points square_tesser) ! i = corner_ipt (fst c) (snd c)
                else m_pts (builder_points B) ! i = bounds_corner square_path (fst c) (snd c)))"
    by (elim exE conjE)
  from imp e have h: "builder_hoard B =
       [(builder_winding_offset silent_glu square_path,
         new_WindingComponentData
           \<lparr>m_triangles :=
              map (\<lambda>c. the (m_map (builder_points B) (corner_ipt (fst c) (snd c))))
                rectangle_corners\<rparr>)]"
    by (elim impE conjE)
  have "map fst (builder_hoard B) = [0]"
    by (subst h) (simp add: builder_winding_offset_silent)
  moreover have "map (length \<circ> m_triangles \<circ> snd) (builder_hoard B) = [6]"
    by (subst h) (simp add: rectangle_corners_def)
  ultimately show ?thesis using B(1,2) by (intro exI [of _ B] conjI)
qed


section \<open>The rectangle of a SubPath with a point next to a corner\<close>

lemma generate_path_near_corner:
  "generate_path silent_glu near_corner_path (new_PointHoard (0, 0) (2 ^ 24, 2 ^ 24))
     = (0, [],
        \<lparr>m_map = [(1, 1) \<mapsto> 0], m_ipts = [(1, 1)], m_pts = [(1 / 4, 1 / 2)],
         bounds_min = (0, 0), bounds_max = (2 ^ 24, 2 ^ 24)\<rparr>)"
proof -
  have d: "discretize_points silent_glu [\<lparr>position = (1 / 4, 1 / 2), flags = 0\<rparr>]
             ([], 0, new_PointHoard (0, 0) (2 ^ 24, 2 ^ 24))
         = ([\<lparr>m_vertex = 0, m_flags = 0\<rparr>], 1,
            \<lparr>m_map = [(1, 1) \<mapsto> 0], m_ipts = [(1, 1)], m_pts = [(1 / 4, 1 / 2)],
             bounds_min = (0, 0), bounds_max = (2 ^ 24, 2 ^ 24)\<rparr>)"
    by (simp add: silent_glu_def iapply_def clamp_int_def box_dim_def log2_box_dim_def
        fetch_discretized_def Let_def new_PointHoard_def)
  have p: "pop_repeated_tail [\<lparr>m_vertex = 0, m_flags = 0\<rparr>] 1 = ([], 0)"
    by (subst pop_repeated_tail.simps, simp, subst pop_repeated_tail.simps, simp)
  have g: "generate_contour silent_glu [\<lparr>position = (1 / 4, 1 / 2), flags = 0\<rparr>]
             (new_PointHoard (0, 0) (2 ^ 24, 2 ^ 24))
         = ([], \<lparr>m_map = [(1, 1) \<mapsto> 0], m_ipts = [(1, 1)], m_pts = [(1 / 4, 1 / 2)],
             bounds_min = (0, 0), bounds_max = (2 ^ 24, 2 ^ 24)\<rparr>)"
    unfolding generate_contour_def d prod.case by (simp add: p)
  show ?thesis
    unfolding generate_path_def near_corner_path_def
    by (simp add: add_contour_to_path_def g [simplified] unloop_contour_def)
qed

lemma new_builder_near_corner:
  "map_option (\<lambda>B. (builder_hoard B, m_ipts (builder_points B), m_pts (builder_points B)))
       (new_builder silent_glu near_corner_path)
     = Some ([(0, new_WindingComponentData\<lparr>m_triangles := [1, 2, 0, 1, 0, 3]\<rparr>)],
             [(1, 1), (2 ^ 24 + 1, 2 ^ 24 + 1), (2 ^ 24 + 1, 1), (1, 2 ^ 24 + 1)],
             [(1 / 4, 1 / 2), (2 ^ 24, 2 ^ 24), (2 ^ 24, 0), (0, 2 ^ 24)])"
proof -
  have b: "m_bounds_min near_corner_path = (0, 0)" "m_bounds_max near_corner_path = (2 ^ 24, 2 ^ 24)"
    by (simp_all add: near_corner_path_def)
  show ?thesis
    unfolding new_builder_def b generate_path_near_corner prod.case
    by (simp add: new_tesser_def silent_glu_def builder_finish_def fetch_corner_def Let_def
        box_dim_def log2_box_dim_def)
qed

text \<open>
  Claim C6 as written fails.  The SubPath \<open>near_corner_path\<close> has the bounding
  box from \<open>(0, 0)\<close> to \<open>(2 ^ 24, 2 ^ 24)\<close> and the single point \<open>(1/4, 1/2)\<close>, whose
  integer point is \<open>(1, 1)\<close>, the integer point of the corner (min, min).  Its contour is
  dropped, the triangulator is given nothing and reports nothing, and the builder
  makes the rectangle: the triangles \<open>1 2 0\<close> and \<open>1 0 3\<close>, where the vertex 0, taken
  for the corner (min, min), is the point of the path at \<open>(1/4, 1/2)\<close> and not the
  corner \<open>(0, 0)\<close> of the bounding box.
\<close>

theorem builder_rectangle_reuses_path_point:
  "new_builder silent_glu near_corner_path \<noteq> None
   \<and> builder_hoard (the (new_builder silent_glu near_corner_path))
       = [(0, new_WindingComponentData\<lparr>m_triangles := [1, 2, 0, 1, 0, 3]\<rparr>)]
   \<and> m_ipts (builder_points (the (new_builder silent_glu near_corner_path)))
       = [corner_ipt False False, corner_ipt True True, corner_ipt True False,
          corner_ipt False True]
   \<and> m_pts (builder_points (the (new_builder silent_glu near_corner_path)))
       = [(1 / 4, 1 / 2), bounds_corner near_corner_path True True,
          bounds_corner near_corner_path True False, bounds_corner near_corner_path False True]
   \<and> bounds_corner near_corner_path False False = (0, 0)
   \<and> (1 / 4, 1 / 2) \<noteq> bounds_corner near_corner_path False False"
proof (cases "new_builder silent_glu near_corner_path")
  case None
  with new_builder_near_corner show ?thesis by simp
next
  case (Some B)
  with new_builder_near_corner show ?thesis
    by (simp add: corner_ipt_def box_dim_def log2_box_dim_def bounds_corner_def
        near_corner_path_def)
qed

section \<open>The tree of subsets: \<open>make_ready\<close>\<close>

lemma set_insert_props:
  "sorted_wrt (<) xs \<Longrightarrow> sorted_wrt (<) (set_insert x xs) \<and> set (set_insert x xs) = insert x (set xs)"
  by (induction xs) auto

lemma fold_set_insert_props:
  "sorted_wrt (<) acc \<Longrightarrow>
     sorted_wrt (<) (fold set_insert xs acc) \<and> set (fold set_insert xs acc) = set xs \<union> set acc"
proof (induction xs arbitrary: acc)
  case Nil
  then show ?case by simp
next
  case (Cons x xs)
  from set_insert_props [OF Cons.prems, of x]
  have s: "sorted_wrt (<) (set_insert x acc)" and e: "set (set_insert x acc) = insert x (set acc)"
    by simp_all
  from Cons.IH [OF s] e show ?case by auto
qed

lemma merge_winding_lists_props:
  "sorted_wrt (<) (merge_winding_lists inA inB)"
  "set (merge_winding_lists inA inB) = set inA \<union> set inB"
proof -
  have a: "sorted_wrt (<) (fold set_insert inA [])" "set (fold set_insert inA []) = set inA"
    using fold_set_insert_props [of "[]" inA] by simp_all
  from fold_set_insert_props [OF a(1), of inB] a(2)
  show "sorted_wrt (<) (merge_winding_lists inA inB)"
    "set (merge_winding_lists inA inB) = set inA \<union> set inB"
    by (auto simp: merge_winding_lists_def)
qed

lemma make_ready_from_sub_path_props:
  assumes "make_ready_from_sub_path g pa sp m = Some m'"
  shows "m_ID m' = m_ID m" "m_painter_data m' \<noteq> None" "m_fuzz_painter_data m' \<noteq> None"
    "m_sub_path m' = None" "m_sizes_ready m'"
  using assms
  by (auto simp: make_ready_from_sub_path_def Let_def split: option.splits prod.splits)

lemma make_ready_from_sub_path_total:
  assumes "new_builder g sp \<noteq> None"
  shows "\<exists>m'. make_ready_from_sub_path g pa sp m = Some m'"
proof -
  from assms obtain B where B: "new_builder g sp = Some B" by auto
  from fill_indices_value [of "builder_hoard B" "[]" "[]"]
  obtain r where "fill_indices (builder_hoard B) [] [] = Some r" by blast
  with B show ?thesis
    by (cases r) (simp add: make_ready_from_sub_path_def Let_def)
qed

lemma merge_children_props:
  assumes "merge_children pa m c0 c1 = Some m'"
  shows "m_ID m' = m_ID m" "m_painter_data m' \<noteq> None" "m_fuzz_painter_data m' \<noteq> None"
    "m_sub_path m' = m_sub_path m" "m_sizes_ready m'"
    "m_winding_numbers m' = merge_winding_lists (m_winding_numbers (members c0)) (m_winding_numbers (members c1))"
  using assms
  by (auto simp: merge_children_def Let_def split: option.splits prod.splits)

lemma merge_children_total:
  assumes "m_painter_data (members c0) \<noteq> None" "m_painter_data (members c1) \<noteq> None"
    "m_fuzz_painter_data (members c0) \<noteq> None" "m_fuzz_painter_data (members c1) \<noteq> None"
  shows "\<exists>m'. merge_children pa m c0 c1 = Some m'"
  using assms by (auto simp: merge_children_def Let_def)

lemma same_ids_refl: "same_ids t t"
  by (simp add: same_ids_def)

lemma keeps_data_refl: "keeps_data t t"
  by (simp add: keeps_data_def)

lemma same_ids_leaf:
  "m_ID m' = m_ID m \<Longrightarrow> same_ids (SubsetPrivate m None) (SubsetPrivate m' None)"
  by (simp add: same_ids_def fun_eq_iff)

lemma same_ids_node:
  "m_ID m' = m_ID m \<Longrightarrow> same_ids c0 c0' \<Longrightarrow> same_ids c1 c1'
     \<Longrightarrow> same_ids (SubsetPrivate m (Some (c0, c1))) (SubsetPrivate m' (Some (c0', c1')))"
  by (simp add: same_ids_def fun_eq_iff)

lemma tree_inv_realized:
  "tree_inv t \<Longrightarrow> m_painter_data (members t) \<noteq> None \<Longrightarrow> m_fuzz_painter_data (members t) \<noteq> None"
  by (induction t rule: ids_of.induct) (auto split: if_splits)

lemma make_ready_realized:
  "make_ready g pa t = Some t' \<Longrightarrow> m_painter_data (members t') \<noteq> None"
  by (induction t rule: ids_of.induct)
     (auto split: if_splits option.splits dest: make_ready_from_sub_path_props merge_children_props)

lemma make_ready_props:
  "tree_inv t \<Longrightarrow> make_ready g pa t = Some t'
     \<Longrightarrow> tree_inv t' \<and> same_ids t t' \<and> keeps_data t t'"
proof (induction t arbitrary: t' rule: ids_of.induct)
  case (1 m)
  show ?case
  proof (cases "m_painter_data m = None")
    case True
    with "1.prems" obtain sp m' where sp: "m_sub_path m = Some sp"
      and m': "make_ready_from_sub_path g pa sp m = Some m'" and t': "t' = SubsetPrivate m' None"
      by (auto split: option.splits)
    from make_ready_from_sub_path_props [OF m'] t' True show ?thesis
      by (simp add: same_ids_leaf keeps_data_def)
  next
    case False
    with "1.prems" show ?thesis by (auto simp: same_ids_refl keeps_data_refl)
  qed
next
  case (2 m c0 c1)
  show ?case
  proof (cases "m_painter_data m = None")
    case True
    from "2.prems"(1) have sp: "m_sub_path m = None" and i0: "tree_inv c0" and i1: "tree_inv c1"
      by simp_all
    from "2.prems"(2) True sp obtain c0' c1' m' where
      c0: "make_ready g pa c0 = Some c0'" and c1: "make_ready g pa c1 = Some c1'"
      and m': "merge_children pa m c0' c1' = Some m'"
      and t': "t' = SubsetPrivate m' (Some (c0', c1'))"
      by (auto split: option.splits)
    note p0 = "2.IH"(1) [OF i0 c0] and p1 = "2.IH"(2) [OF i1 c1]
    note r0 = make_ready_realized [OF c0] and r1 = make_ready_realized [OF c1]
    note mp = merge_children_props [OF m']
    from p0 p1 r0 r1 mp sp have "tree_inv t'" by (simp add: t')
    moreover from p0 p1 mp(1) have "same_ids (SubsetPrivate m (Some (c0, c1))) t'"
      by (simp add: t' same_ids_node)
    moreover from True have "keeps_data (SubsetPrivate m (Some (c0, c1))) t'"
      by (simp add: keeps_data_def)
    ultimately show ?thesis by simp
  next
    case False
    with "2.prems" show ?thesis by (auto simp: same_ids_refl keeps_data_refl)
  qed
qed

lemma make_ready_builders:
  "builders_complete g t \<Longrightarrow> make_ready g' pa t = Some t' \<Longrightarrow> builders_complete g t'"
proof (induction t arbitrary: t' rule: ids_of.induct)
  case (1 m)
  then show ?case
    by (auto split: if_splits option.splits dest: make_ready_from_sub_path_props(4))
next
  case (2 m c0 c1)
  show ?case
  proof (cases "m_painter_data m = None \<and> m_sub_path m = None")
    case True
    with "2.prems"(2) obtain c0' c1' m' where
      c0: "make_ready g' pa c0 = Some c0'" and c1: "make_ready g' pa c1 = Some c1'"
      and m': "merge_children pa m c0' c1' = Some m'"
      and t': "t' = SubsetPrivate m' (Some (c0', c1'))"
      by (auto split: option.splits)
    from "2.prems"(1) have b: "builders_complete g c0" "builders_complete g c1" by simp_all
    from "2.IH"(1) [OF b(1) c0] "2.IH"(2) [OF b(2) c1] merge_children_props(4) [OF m'] True
    show ?thesis by (simp add: t')
  next
    case False
    with "2.prems" show ?thesis
      by (auto split: if_splits option.splits dest: make_ready_from_sub_path_props(4))
  qed
qed

lemma make_ready_total:
  "tree_inv t \<Longrightarrow> builders_complete g t \<Longrightarrow> \<exists>t'. make_ready g pa t = Some t'"
proof (induction t rule: ids_of.induct)
  case (1 m)
  show ?case
  proof (cases "m_painter_data m = None")
    case True
    with "1.prems"(1) obtain sp where sp: "m_sub_path m = Some sp" by auto
    with "1.prems"(2) have "new_builder g sp \<noteq> None" by simp
    from make_ready_from_sub_path_total [OF this, of pa m] True sp show ?thesis by auto
  next
    case False
    then show ?thesis by auto
  qed
next
  case (2 m c0 c1)
  show ?case
  proof (cases "m_painter_data m = None")
    case True
    from "2.prems" have sp: "m_sub_path m = None" and i: "tree_inv c0" "tree_inv c1"
      and b: "builders_complete g c0" "builders_complete g c1" by simp_all
    from "2.IH"(1) [OF i(1) b(1)] obtain c0' where c0: "make_ready g pa c0 = Some c0'" by blast
    from "2.IH"(2) [OF i(2) b(2)] obtain c1' where c1: "make_ready g pa c1 = Some c1'" by blast
    note r0 = make_ready_realized [OF c0] and r1 = make_ready_realized [OF c1]
    from make_ready_props [OF i(1) c0] have t0: "tree_inv c0'" by simp
    from make_ready_props [OF i(2) c1] have t1: "tree_inv c1'" by simp
    from merge_children_total [OF r0 r1 tree_inv_realized [OF t0 r0] tree_inv_realized [OF t1 r1]]
    obtain m' where "merge_children pa m c0' c1' = Some m'" by blast
    with True sp c0 c1 show ?thesis by simp
  next
    case False
    then show ?thesis by auto
  qed
qed

lemma make_ready_again:
  "make_ready g pa t = Some t' \<Longrightarrow> make_ready g pa t' = Some t'"
  using make_ready_realized [of g pa t t'] by (cases t') auto

lemma make_ready_ids:
  "make_ready g pa t = Some t' \<Longrightarrow> ids_of t' = ids_of t \<and> m_ID (members t') = m_ID (members t)"
proof (induction t arbitrary: t' rule: ids_of.induct)
  case (1 m)
  then show ?case
    by (auto split: if_splits option.splits dest: make_ready_from_sub_path_props(1))
next
  case (2 m c0 c1)
  show ?case
  proof (cases "m_painter_data m = None \<and> m_sub_path m = None")
    case True
    with "2.prems" obtain c0' c1' m' where
      c0: "make_ready g pa c0 = Some c0'" and c1: "make_ready g pa c1 = Some c1'"
      and m': "merge_children pa m c0' c1' = Some m'"
      and t': "t' = SubsetPrivate m' (Some (c0', c1'))"
      by (auto split: option.splits)
    from "2.IH"(1) [OF c0] "2.IH"(2) [OF c1] merge_children_props(1) [OF m']
    show ?thesis by (simp add: t')
  next
    case False
    with "2.prems" show ?thesis
      by (auto split: if_splits option.splits dest: make_ready_from_sub_path_props(1))
  qed
qed

lemma realized_winding_union:
  "tree_inv t \<Longrightarrow> m_painter_data (members t) \<noteq> None
     \<Longrightarrow> winding_union t \<and> set (m_winding_numbers (members t)) = set (leaf_windings t)"
proof (induction t rule: ids_of.induct)
  case (1 m)
  then show ?case by simp
next
  case (2 m c0 c1)
  from "2.prems" have i: "tree_inv c0" "tree_inv c1"
    and r: "m_painter_data (members c0) \<noteq> None" "m_painter_data (members c1) \<noteq> None"
    and w: "m_winding_numbers m = merge_winding_lists (m_winding_numbers (members c0))
                  (m_winding_numbers (members c1))"
    by simp_all
  from "2.IH"(1) [OF i(1) r(1)] "2.IH"(2) [OF i(2) r(2)]
    merge_winding_lists_props [of "m_winding_numbers (members c0)" "m_winding_numbers (members c1)"]
  show ?case by (simp add: w)
qed


section \<open>The tree of subsets: \<open>subset\<close> and the constructor\<close>

lemma subset_at_props:
  "tree_inv t \<Longrightarrow> subset_at g pa I t = Some (t', p)
     \<Longrightarrow> tree_inv t' \<and> same_ids t t' \<and> keeps_data t t' \<and> tree_inv p
       \<and> m_painter_data (members p) \<noteq> None \<and> m_ID (members p) = I"
proof (induction t arbitrary: t' rule: ids_of.induct)
  case (1 m)
  from "1.prems"(2) have I: "m_ID m = I" and mr: "make_ready g pa (SubsetPrivate m None) = Some t'"
    and p: "p = t'"
    by (auto split: if_splits)
  from make_ready_props [OF "1.prems"(1) mr] make_ready_realized [OF mr] I p
  show ?case by (simp add: same_ids_def)
next
  case (2 m c0 c1)
  let ?t = "SubsetPrivate m (Some (c0, c1))"
  show ?case
  proof (cases "m_ID m = I")
    case True
    with "2.prems"(2) have mr: "make_ready g pa ?t = Some t'" and p: "p = t'"
      by (auto split: if_splits)
    from make_ready_props [OF "2.prems"(1) mr] make_ready_realized [OF mr] True p
    show ?thesis by (simp add: same_ids_def)
  next
    case False
    from "2.prems"(1) have sp: "m_sub_path m = None" and i: "tree_inv c0" "tree_inv c1"
      and r: "m_painter_data m \<noteq> None \<longrightarrow>
            m_fuzz_painter_data m \<noteq> None
          \<and> m_painter_data (members c0) \<noteq> None \<and> m_painter_data (members c1) \<noteq> None
          \<and> m_winding_numbers m
              = merge_winding_lists (m_winding_numbers (members c0))
                  (m_winding_numbers (members c1))"
      by simp_all
    show ?thesis
    proof (cases "I \<in> set (ids_of c0)")
      case True
      with "2.prems"(2) False obtain c0' where s: "subset_at g pa I c0 = Some (c0', p)"
        and t': "t' = SubsetPrivate m (Some (c0', c1))"
        by auto
      note ih = "2.IH"(1) [OF i(1) s]
      from ih i sp r have "tree_inv t'" by (auto simp: t' keeps_data_def)
      moreover from ih have "same_ids ?t t'" by (simp add: t' same_ids_node same_ids_refl)
      moreover have "keeps_data ?t t'" by (simp add: t' keeps_data_def)
      ultimately show ?thesis using ih by simp
    next
      case c: False
      with "2.prems"(2) False obtain c1' where s: "subset_at g pa I c1 = Some (c1', p)"
        and t': "t' = SubsetPrivate m (Some (c0, c1'))"
        by auto
      note ih = "2.IH"(2) [OF i(2) s]
      from ih i sp r have "tree_inv t'" by (auto simp: t' keeps_data_def)
      moreover from ih have "same_ids ?t t'" by (simp add: t' same_ids_node same_ids_refl)
      moreover have "keeps_data ?t t'" by (simp add: t' keeps_data_def)
      ultimately show ?thesis using ih by simp
    qed
  qed
qed

lemma subset_at_builders:
  "builders_complete g t \<Longrightarrow> subset_at g' pa I t = Some (t', p) \<Longrightarrow> builders_complete g t'"
proof (induction t arbitrary: t' rule: ids_of.induct)
  case (1 m)
  from "1.prems"(2) have mr: "make_ready g' pa (SubsetPrivate m None) = Some t'"
    by (auto split: if_splits)
  from make_ready_builders [OF "1.prems"(1) mr] show ?case .
next
  case (2 m c0 c1)
  let ?t = "SubsetPrivate m (Some (c0, c1))"
  show ?case
  proof (cases "m_ID m = I")
    case True
    with "2.prems"(2) have mr: "make_ready g' pa ?t = Some t'"
      by (auto split: if_splits)
    from make_ready_builders [OF "2.prems"(1) mr] show ?thesis .
  next
    case False
    from "2.prems"(1) have b: "builders_complete g c0" "builders_complete g c1"
      and sp: "(case m_sub_path m of None \<Rightarrow> True | Some sp \<Rightarrow> new_builder g sp \<noteq> None)"
      by simp_all
    show ?thesis
    proof (cases "I \<in> set (ids_of c0)")
      case True
      with "2.prems"(2) False obtain c0' where s: "subset_at g' pa I c0 = Some (c0', p)"
        and t': "t' = SubsetPrivate m (Some (c0', c1))"
        by auto
      from "2.IH"(1) [OF b(1) s] b sp show ?thesis by (simp add: t')
    next
      case c: False
      with "2.prems"(2) False obtain c1' where s: "subset_at g' pa I c1 = Some (c1', p)"
        and t': "t' = SubsetPrivate m (Some (c0, c1'))"
        by auto
      from "2.IH"(2) [OF b(2) s] b sp show ?thesis by (simp add: t')
    qed
  qed
qed

lemma subset_at_total:
  "I \<in> set (ids_of t) \<Longrightarrow> tree_inv t \<Longrightarrow> builders_complete g t
     \<Longrightarrow> \<exists>t' p. subset_at g pa I t = Some (t', p)"
proof (induction t rule: ids_of.induct)
  case (1 m)
  from make_ready_total [OF "1.prems"(2,3), of pa] "1.prems"(1) show ?case by auto
next
  case (2 m c0 c1)
  let ?t = "SubsetPrivate m (Some (c0, c1))"
  show ?case
  proof (cases "m_ID m = I")
    case True
    from make_ready_total [OF "2.prems"(2,3), of pa] True show ?thesis by auto
  next
    case False
    from "2.prems" have i: "tree_inv c0" "tree_inv c1"
      and b: "builders_complete g c0" "builders_complete g c1" by simp_all
    show ?thesis
    proof (cases "I \<in> set (ids_of c0)")
      case True
      from "2.IH"(1) [OF True i(1) b(1)] True False show ?thesis by auto
    next
      case c: False
      with "2.prems"(1) False have "I \<in> set (ids_of c1)" by simp
      from "2.IH"(2) [OF this i(2) b(2)] c False show ?thesis by auto
    qed
  qed
qed

lemma subset_at_ids:
  "subset_at g pa I t = Some (t', p)
     \<Longrightarrow> ids_of t' = ids_of t \<and> m_ID (members t') = m_ID (members t)"
proof (induction t arbitrary: t' rule: ids_of.induct)
  case (1 m)
  from "1.prems" have mr: "make_ready g pa (SubsetPrivate m None) = Some t'"
    by (auto split: if_splits)
  from make_ready_ids [OF mr] show ?case .
next
  case (2 m c0 c1)
  let ?t = "SubsetPrivate m (Some (c0, c1))"
  show ?case
  proof (cases "m_ID m = I")
    case True
    with "2.prems" have mr: "make_ready g pa ?t = Some t'"
      by (auto split: if_splits)
    from make_ready_ids [OF mr] show ?thesis .
  next
    case False
    show ?thesis
    proof (cases "I \<in> set (ids_of c0)")
      case True
      with "2.prems" False obtain c0' where s: "subset_at g pa I c0 = Some (c0', p)"
        and t': "t' = SubsetPrivate m (Some (c0', c1))"
        by auto
      from "2.IH"(1) [OF s] show ?thesis by (simp add: t')
    next
      case c: False
      with "2.prems" False obtain c1' where s: "subset_at g pa I c1 = Some (c1', p)"
        and t': "t' = SubsetPrivate m (Some (c0, c1'))"
        by auto
      from "2.IH"(2) [OF s] show ?thesis by (simp add: t')
    qed
  qed
qed

lemma subset_at_again:
  "subset_at g pa I t = Some (t', p) \<Longrightarrow> subset_at g pa I t' = Some (t', p)"
proof (induction t arbitrary: t' rule: ids_of.induct)
  case (1 m)
  from "1.prems" have I: "m_ID m = I" and mr: "make_ready g pa (SubsetPrivate m None) = Some t'"
    and p: "p = t'"
    by (auto split: if_splits)
  from make_ready_ids [OF mr] I have "m_ID (members t') = I" by simp
  with make_ready_again [OF mr] p show ?case by (cases t') simp
next
  case (2 m c0 c1)
  let ?t = "SubsetPrivate m (Some (c0, c1))"
  show ?case
  proof (cases "m_ID m = I")
    case True
    with "2.prems" have mr: "make_ready g pa ?t = Some t'" and p: "p = t'"
      by (auto split: if_splits)
    from make_ready_ids [OF mr] True have "m_ID (members t') = I" by simp
    with make_ready_again [OF mr] p show ?thesis by (cases t') simp
  next
    case False
    show ?thesis
    proof (cases "I \<in> set (ids_of c0)")
      case True
      with "2.prems" False obtain c0' where s: "subset_at g pa I c0 = Some (c0', p)"
        and t': "t' = SubsetPrivate m (Some (c0', c1))"
        by auto
      from "2.IH"(1) [OF s] subset_at_ids [OF s] True False show ?thesis by (simp add: t')
    next
      case c: False
      with "2.prems" False obtain c1' where s: "subset_at g pa I c1 = Some (c1', p)"
        and t': "t' = SubsetPrivate m (Some (c0, c1'))"
        by auto
      from "2.IH"(2) [OF s] subset_at_ids [OF s] c False show ?thesis by (simp add: t')
    qed
  qed
qed

lemma upt_split: "a \<le> b \<Longrightarrow> b \<le> c \<Longrightarrow> [a..<c] = [a..<b] @ [b..<c]"
  by (metis le_Suc_ex upt_add_eq_append)

lemma new_SubsetPrivate_props:
  "new_SubsetPrivate split Q r n = (t, n')
     \<Longrightarrow> ids_of t = [n..<n'] \<and> n < n' \<and> tree_inv t \<and> m_ID (members t) = n"
proof (induction r arbitrary: Q n t n')
  case 0
  then show ?case by (auto simp: new_members_def)
next
  case (Suc r)
  obtain C0 C1 co where sp: "split Q = (C0, C1, co)" by (cases "split Q")
  obtain c0 n0 where c0: "new_SubsetPrivate split C0 r (Suc n) = (c0 :: 'a SubsetPrivate, n0)"
    by (cases "new_SubsetPrivate split C0 r (Suc n) :: 'a SubsetPrivate \<times> nat")
  obtain c1 n1 where c1: "new_SubsetPrivate split C1 r n0 = (c1 :: 'a SubsetPrivate, n1)"
    by (cases "new_SubsetPrivate split C1 r n0 :: 'a SubsetPrivate \<times> nat")
  note p0 = Suc.IH [OF c0] and p1 = Suc.IH [OF c1]
  show ?case
  proof (cases "m_num_points Q > points_per_subset
      \<and> (m_num_points C0 < m_num_points Q \<or> m_num_points C1 < m_num_points Q)")
    case True
    with Suc.prems sp c0 c1
    have t: "t = SubsetPrivate
                        ((new_members n Q)\<lparr>m_sub_path := None,
                                            m_splitting_coordinate := co\<rparr>)
                        (Some (c0, c1))" and n': "n' = n1"
      by auto
    from p0 p1 have lt: "n < n1" "Suc n \<le> n0" "n0 \<le> n1" by simp_all
    have "[n..<n1] = n # [Suc n..<n1]" by (rule upt_conv_Cons [OF lt(1)])
    also have "[Suc n..<n1] = [Suc n..<n0] @ [n0..<n1]" by (rule upt_split [OF lt(2,3)])
    finally have "[n..<n1] = n # [Suc n..<n0] @ [n0..<n1]" .
    with p0 p1 show ?thesis by (simp add: t n' new_members_def)
  next
    case False
    with Suc.prems sp have "t = SubsetPrivate (new_members n Q) None \<and> n' = Suc n
       \<or> t = SubsetPrivate ((new_members n Q)\<lparr>m_splitting_coordinate := co\<rparr>) None \<and> n' = Suc n"
      by (auto split: if_splits)
    then show ?thesis by (auto simp: new_members_def)
  qed
qed

lemma create_root_subset_props:
  fixes t :: "'pd SubsetPrivate"
  assumes "t = create_root_subset split P"
  shows "ids_of t = [0..<number_subsets t]" "tree_inv t"
proof -
  obtain t0 n' where c: "new_SubsetPrivate split P recursion_depth 0 = (t0 :: 'pd SubsetPrivate, n')"
    by (cases "new_SubsetPrivate split P recursion_depth 0 :: 'pd SubsetPrivate \<times> nat")
  from new_SubsetPrivate_props [OF c] c assms
  show "ids_of t = [0..<number_subsets t]" "tree_inv t"
    by (simp_all add: create_root_subset_def number_subsets_def)
qed


section \<open>The tree of subsets: \<open>select_subsets\<close>\<close>

lemma in_tl_set: "x \<in> set (tl xs) \<Longrightarrow> x \<in> set xs"
  by (cases xs) simp_all

lemma root_in_ids: "m_ID (members t) \<in> set (ids_of t)"
  by (induction t rule: ids_of.induct) simp_all

lemma ids_of_Cons: "ids_of t = m_ID (members t) # tl (ids_of t)"
  by (induction t rule: ids_of.induct) simp_all

lemma ancestry_ids:
  "(a, b) \<in> set (ancestry t) \<Longrightarrow> a \<in> set (ids_of t) \<and> b \<in> set (tl (ids_of t))"
proof (induction t rule: ids_of.induct)
  case (1 m)
  then show ?case by simp
next
  case (2 m c0 c1)
  have "set (tl (ids_of c0)) \<subseteq> set (ids_of c0)" "set (tl (ids_of c1)) \<subseteq> set (ids_of c1)"
    by (auto dest: in_tl_set)
  with 2 show ?case by auto
qed

lemma root_not_descendant:
  assumes "distinct (ids_of t)"
  shows "(a, m_ID (members t)) \<notin> set (ancestry t)"
proof
  assume "(a, m_ID (members t)) \<in> set (ancestry t)"
  from ancestry_ids [OF this] have "m_ID (members t) \<in> set (tl (ids_of t))" by simp
  moreover from assms ids_of_Cons [of t] have "m_ID (members t) \<notin> set (tl (ids_of t))"
    by (metis distinct.simps(2))
  ultimately show False by simp
qed

lemma keep_ok:
  assumes "tree_inv t'" "same_ids t t'" "keeps_data t t'"
    "builders_complete g t \<longrightarrow> builders_complete g t'" "cur \<le> length dst"
  shows "select_ok g t dst cur t' dst cur"
proof -
  have "\<exists>new. cur = cur + length new \<and> cur \<le> length dst
             \<and> dst = take cur dst @ new @ drop cur dst
             \<and> set new \<subseteq> set (ids_of t) \<and> distinct new \<and> length new \<le> length (ids_of t)
             \<and> (\<forall>a\<in>set new. \<forall>b\<in>set new. (a, b) \<notin> set (ancestry t))"
    using assms(5) by (intro exI [of _ "[]"]) simp
  with assms(1-4) show ?thesis unfolding select_ok_def by simp
qed

lemma emit_ok:
  assumes "tree_inv t'" "same_ids t t'" "keeps_data t t'"
    "builders_complete g t \<longrightarrow> builders_complete g t'" "cur < length dst"
    "distinct (ids_of t)"
  shows "select_ok g t dst cur t' (dst[cur := m_ID (members t)]) (cur + 1)"
proof -
  let ?new = "[m_ID (members t)]"
  have 1: "cur + 1 = cur + length ?new" "cur + 1 \<le> length dst" using assms(5) by simp_all
  have 2: "dst[cur := m_ID (members t)] = take cur dst @ ?new @ drop (cur + 1) dst"
    using assms(5) by (simp add: upd_conv_take_nth_drop)
  have 3: "set ?new \<subseteq> set (ids_of t)" "distinct ?new" using root_in_ids [of t] by simp_all
  have 4: "length ?new \<le> length (ids_of t)" by (subst ids_of_Cons) simp
  have 5: "\<forall>a\<in>set ?new. \<forall>b\<in>set ?new. (a, b) \<notin> set (ancestry t)"
    using root_not_descendant [OF assms(6)] by simp
  have "\<exists>new. cur + 1 = cur + length new \<and> cur + 1 \<le> length dst
             \<and> dst[cur := m_ID (members t)] = take cur dst @ new @ drop (cur + 1) dst
             \<and> set new \<subseteq> set (ids_of t) \<and> distinct new \<and> length new \<le> length (ids_of t)
             \<and> (\<forall>a\<in>set new. \<forall>b\<in>set new. (a, b) \<notin> set (ancestry t))"
    using 1 2 3 4 5 by (intro exI [of _ ?new] conjI)
  with assms(1-4) show ?thesis unfolding select_ok_def by simp
qed

lemma splice:
  assumes "cur \<le> length dst" "cur0 = cur + length new0" "cur0 \<le> length dst"
    "dst0 = take cur dst @ new0 @ drop cur0 dst" "n = cur0 + length new1" "n \<le> length dst"
  shows "take cur0 dst0 @ new1 @ drop n dst0 = take cur dst @ (new0 @ new1) @ drop n dst"
proof -
  define A where "A = take cur dst @ new0"
  from assms(1,2) have l: "length A = cur0" by (simp add: A_def)
  have d0: "dst0 = A @ drop cur0 dst" using assms(4) by (simp add: A_def)
  have "take cur0 dst0 = A"
    unfolding d0 using l by simp
  moreover have "drop n dst0 = drop n dst"
    unfolding d0 using l assms(5) by (simp add: add.commute)
  ultimately show ?thesis by (simp add: A_def)
qed

lemma node_combine:
  assumes inv: "tree_inv (SubsetPrivate m (Some (c0, c1)))"
    and dis: "distinct (ids_of (SubsetPrivate m (Some (c0, c1))))"
    and cur: "cur \<le> length dst"
    and s0: "select_ok g c0 dst cur c0' dst0 cur0"
    and s1: "select_ok g c1 dst0 cur0 c1' dst1 cur1"
    and m2: "m2 = m \<or> m2 = ready_sizes_from_children m c0' c1'"
  shows "select_ok g (SubsetPrivate m (Some (c0, c1))) dst cur
           (SubsetPrivate m2 (Some (c0', c1'))) dst1 cur1"
proof -
  let ?t = "SubsetPrivate m (Some (c0, c1))" and ?t' = "SubsetPrivate m2 (Some (c0', c1'))"
  from m2 have f: "m_ID m2 = m_ID m" "m_sub_path m2 = m_sub_path m"
    "m_painter_data m2 = m_painter_data m" "m_fuzz_painter_data m2 = m_fuzz_painter_data m"
    "m_winding_numbers m2 = m_winding_numbers m"
    by (auto simp: ready_sizes_from_children_def)
  from s0 have a0: "tree_inv c0'" "same_ids c0 c0'" "keeps_data c0 c0'"
    "builders_complete g c0 \<longrightarrow> builders_complete g c0'" "length dst0 = length dst"
    by (simp_all add: select_ok_def)
  from s1 have a1: "tree_inv c1'" "same_ids c1 c1'" "keeps_data c1 c1'"
    "builders_complete g c1 \<longrightarrow> builders_complete g c1'" "length dst1 = length dst0"
    by (simp_all add: select_ok_def)
  from s0 obtain new0 where n0: "cur0 = cur + length new0" "cur0 \<le> length dst"
    "dst0 = take cur dst @ new0 @ drop cur0 dst"
    "set new0 \<subseteq> set (ids_of c0)" "distinct new0" "length new0 \<le> length (ids_of c0)"
    "\<forall>a\<in>set new0. \<forall>b\<in>set new0. (a, b) \<notin> set (ancestry c0)"
    unfolding select_ok_def by (elim conjE exE)
  from s1 obtain new1 where n1: "cur1 = cur0 + length new1" "cur1 \<le> length dst0"
    "dst1 = take cur0 dst0 @ new1 @ drop cur1 dst0"
    "set new1 \<subseteq> set (ids_of c1)" "distinct new1" "length new1 \<le> length (ids_of c1)"
    "\<forall>a\<in>set new1. \<forall>b\<in>set new1. (a, b) \<notin> set (ancestry c1)"
    unfolding select_ok_def by (elim conjE exE)
  from inv a0 a1 f have "tree_inv ?t'"
    by (auto simp: keeps_data_def)
  moreover from a0 a1 f have "same_ids ?t ?t'" by (simp add: same_ids_node)
  moreover from f have "keeps_data ?t ?t'" by (simp add: keeps_data_def)
  moreover from a0 a1 f have "builders_complete g ?t \<longrightarrow> builders_complete g ?t'" by simp
  moreover from a0 a1 have "length dst1 = length dst" by simp
  moreover have "\<exists>new. cur1 = cur + length new \<and> cur1 \<le> length dst
             \<and> dst1 = take cur dst @ new @ drop cur1 dst
             \<and> set new \<subseteq> set (ids_of ?t) \<and> distinct new \<and> length new \<le> length (ids_of ?t)
             \<and> (\<forall>a\<in>set new. \<forall>b\<in>set new. (a, b) \<notin> set (ancestry ?t))"
  proof (intro exI [of _ "new0 @ new1"] conjI)
    show "cur1 = cur + length (new0 @ new1)" using n0(1) n1(1) by simp
    show c1: "cur1 \<le> length dst" using n1(2) a0(5) by simp
    show "dst1 = take cur dst @ (new0 @ new1) @ drop cur1 dst"
      unfolding n1(3) by (rule splice [OF cur n0(1) n0(2) n0(3) n1(1) c1])
    show "set (new0 @ new1) \<subseteq> set (ids_of ?t)" using n0(4) n1(4) by auto
    show "distinct (new0 @ new1)" using n0(4,5) n1(4,5) dis by auto
    show "length (new0 @ new1) \<le> length (ids_of ?t)" using n0(6) n1(6) by simp
    show "\<forall>a\<in>set (new0 @ new1). \<forall>b\<in>set (new0 @ new1). (a, b) \<notin> set (ancestry ?t)"
    proof (intro ballI notI)
      fix a b assume a: "a \<in> set (new0 @ new1)" and b: "b \<in> set (new0 @ new1)"
        and ab: "(a, b) \<in> set (ancestry ?t)"
      from dis have d: "m_ID m \<notin> set (ids_of c0)" "m_ID m \<notin> set (ids_of c1)"
        "set (ids_of c0) \<inter> set (ids_of c1) = {}" by auto
      from a n0(4) n1(4) d have "a \<noteq> m_ID m" by auto
      with ab have "(a, b) \<in> set (ancestry c0) \<or> (a, b) \<in> set (ancestry c1)" by auto
      then show False
      proof
        assume x: "(a, b) \<in> set (ancestry c0)"
        from ancestry_ids [OF x] have "a \<in> set (ids_of c0)" "b \<in> set (ids_of c0)"
          by (auto dest: in_tl_set)
        with a b n1(4) d(3) have "a \<in> set new0" "b \<in> set new0" by auto
        with n0(7) x show False by blast
      next
        assume x: "(a, b) \<in> set (ancestry c1)"
        from ancestry_ids [OF x] have "a \<in> set (ids_of c1)" "b \<in> set (ids_of c1)"
          by (auto dest: in_tl_set)
        with a b n0(4) d(3) have "a \<in> set new1" "b \<in> set new1" by auto
        with n1(7) x show False by blast
      qed
    qed
  qed
  ultimately show ?thesis unfolding select_ok_def by (intro conjI)
qed

lemma select_okD:
  assumes "select_ok g t dst cur t' dst' n"
  shows "n \<le> length dst" "length dst' = length dst" "cur \<le> n" "n \<le> cur + length (ids_of t)"
    "tree_inv t'" "same_ids t t'" "builders_complete g t \<longrightarrow> builders_complete g t'"
  using assms unfolding select_ok_def by auto

lemma realize_leaf:
  assumes inv: "tree_inv (SubsetPrivate m None)"
    and r: "(if \<not> m_sizes_ready m \<and> m_sub_path m \<noteq> None
            then make_ready_from_sub_path g pa (the (m_sub_path m)) m else Some m) = Some m'"
  shows "tree_inv (SubsetPrivate m' None)" "m_ID m' = m_ID m"
    "same_ids (SubsetPrivate m None) (SubsetPrivate m' None)"
    "keeps_data (SubsetPrivate m None) (SubsetPrivate m' None)"
    "builders_complete g' (SubsetPrivate m None) \<longrightarrow> builders_complete g' (SubsetPrivate m' None)"
proof -
  have "tree_inv (SubsetPrivate m' None) \<and> m_ID m' = m_ID m
    \<and> keeps_data (SubsetPrivate m None) (SubsetPrivate m' None)
    \<and> (builders_complete g' (SubsetPrivate m None) \<longrightarrow> builders_complete g' (SubsetPrivate m' None))"
  proof (cases "\<not> m_sizes_ready m \<and> m_sub_path m \<noteq> None")
    case True
    with r have mr: "make_ready_from_sub_path g pa (the (m_sub_path m)) m = Some m'" by simp
    from True inv have "m_painter_data m = None" by (auto split: if_splits)
    with make_ready_from_sub_path_props [OF mr] show ?thesis
      by (simp add: keeps_data_def)
  next
    case False
    with r have "m' = m" by (auto split: if_splits)
    with inv show ?thesis by (simp add: keeps_data_def)
  qed
  then show "tree_inv (SubsetPrivate m' None)" "m_ID m' = m_ID m"
    "same_ids (SubsetPrivate m None) (SubsetPrivate m' None)"
    "keeps_data (SubsetPrivate m None) (SubsetPrivate m' None)"
    "builders_complete g' (SubsetPrivate m None) \<longrightarrow> builders_complete g' (SubsetPrivate m' None)"
    by (simp_all add: same_ids_leaf)
qed

lemma all_unculled_ok:
  "tree_inv t \<Longrightarrow> distinct (ids_of t) \<Longrightarrow> cur \<le> length dst
     \<Longrightarrow> select_subsets_all_unculled g pa ma mi t (dst, cur) = Some (t', dst', n)
     \<Longrightarrow> select_ok g' t dst cur t' dst' n"
proof (induction t arbitrary: dst cur t' dst' n rule: ids_of.induct)
  case (1 m)
  let ?t = "SubsetPrivate m None"
  from "1.prems"(4) obtain m' where
    r: "(if \<not> m_sizes_ready m \<and> m_sub_path m \<noteq> None
            then make_ready_from_sub_path g pa (the (m_sub_path m)) m else Some m) = Some m'"
    by (auto split: option.splits)
  note rl = realize_leaf [OF "1.prems"(1) r]
  show ?case
  proof (cases "m_sizes_ready m' \<and> m_num_attributes m' \<le> ma \<and> m_largest_index_block m' \<le> mi
              \<and> m_aa_largest_attribute_block m' \<le> ma \<and> m_aa_largest_index_block m' \<le> mi")
    case True
    with "1.prems"(4) r have c: "cur < length dst" and res: "t' = SubsetPrivate m' None"
      "dst' = dst[cur := m_ID (members ?t)]" "n = cur + 1"
      by (auto simp: rl(2) split: if_splits)
    from emit_ok [OF rl(1,3,4,5) c "1.prems"(2)] show ?thesis by (simp add: res)
  next
    case False
    with "1.prems"(4) r have res: "t' = SubsetPrivate m' None" "dst' = dst" "n = cur"
      by (auto split: if_splits)
    from keep_ok [OF rl(1,3,4,5) "1.prems"(3)] show ?thesis by (simp add: res)
  qed
next
  case (2 m c0 c1)
  let ?t = "SubsetPrivate m (Some (c0, c1))"
  show ?case
  proof (cases "m_sizes_ready m \<and> m_num_attributes m \<le> ma \<and> m_largest_index_block m \<le> mi
              \<and> m_aa_largest_attribute_block m \<le> ma \<and> m_aa_largest_index_block m \<le> mi")
    case True
    with "2.prems"(4) have c: "cur < length dst" and res: "t' = ?t"
      "dst' = dst[cur := m_ID (members ?t)]" "n = cur + 1"
      by (auto split: if_splits)
    have "builders_complete g' ?t \<longrightarrow> builders_complete g' ?t" by simp
    from emit_ok [OF "2.prems"(1) same_ids_refl keeps_data_refl this c "2.prems"(2)]
    show ?thesis by (simp add: res)
  next
    case False
    with "2.prems"(4) obtain c0' dst0 cur0 c1' where
      s0: "select_subsets_all_unculled g pa ma mi c0 (dst, cur) = Some (c0', dst0, cur0)"
      and s1: "select_subsets_all_unculled g pa ma mi c1 (dst0, cur0) = Some (c1', dst', n)"
      and res: "t' = SubsetPrivate (if \<not> m_sizes_ready m
                                        then ready_sizes_from_children m c0' c1' else m)
                                       (Some (c0', c1'))"
      by (auto split: option.splits if_splits)
    from "2.prems"(1,2) have i: "tree_inv c0" "tree_inv c1"
      and d: "distinct (ids_of c0)" "distinct (ids_of c1)" by simp_all
    note k0 = "2.IH"(1) [OF i(1) d(1) "2.prems"(3) s0]
    from select_okD(1,2) [OF k0] have "cur0 \<le> length dst0" by simp
    note k1 = "2.IH"(2) [OF i(2) d(2) this s1]
    have "(if \<not> m_sizes_ready m then ready_sizes_from_children m c0' c1' else m) = m
        \<or> (if \<not> m_sizes_ready m then ready_sizes_from_children m c0' c1' else m)
           = ready_sizes_from_children m c0' c1'" by simp
    from node_combine [OF "2.prems"(1,2,3) k0 k1 this] show ?thesis by (simp add: res)
  qed
qed


lemma implement_ok:
  "tree_inv t \<Longrightarrow> distinct (ids_of t) \<Longrightarrow> cur \<le> length dst
     \<Longrightarrow> select_subsets_implement g pa clip ma mi t (dst, cur) = Some (t', dst', n)
     \<Longrightarrow> select_ok g' t dst cur t' dst' n"
proof (induction t arbitrary: dst cur t' dst' n rule: ids_of.induct)
  case (1 m)
  let ?t = "SubsetPrivate m None"
  obtain unclipped empty where cl: "clip (m_bounds m) = (unclipped, empty)"
    by (cases "clip (m_bounds m)")
  show ?case
  proof (cases empty)
    case True
    with "1.prems"(4) cl have res: "t' = ?t" "dst' = dst" "n = cur" by simp_all
    have "builders_complete g' ?t \<longrightarrow> builders_complete g' ?t" by simp
    from keep_ok [OF "1.prems"(1) same_ids_refl keeps_data_refl this "1.prems"(3)]
    show ?thesis by (simp add: res)
  next
    case False
    with "1.prems"(4) cl
    have "select_subsets_all_unculled g pa ma mi ?t (dst, cur) = Some (t', dst', n)"
      by simp
    from all_unculled_ok [OF "1.prems"(1,2,3) this] show ?thesis .
  qed
next
  case (2 m c0 c1)
  let ?t = "SubsetPrivate m (Some (c0, c1))"
  obtain unclipped empty where cl: "clip (m_bounds m) = (unclipped, empty)"
    by (cases "clip (m_bounds m)")
  show ?case
  proof (cases empty)
    case True
    with "2.prems"(4) cl have res: "t' = ?t" "dst' = dst" "n = cur" by simp_all
    have "builders_complete g' ?t \<longrightarrow> builders_complete g' ?t" by simp
    from keep_ok [OF "2.prems"(1) same_ids_refl keeps_data_refl this "2.prems"(3)]
    show ?thesis by (simp add: res)
  next
    case False
    show ?thesis
    proof (cases unclipped)
      case True
      with False "2.prems"(4) cl
      have "select_subsets_all_unculled g pa ma mi ?t (dst, cur) = Some (t', dst', n)"
        by simp
      from all_unculled_ok [OF "2.prems"(1,2,3) this] show ?thesis .
    next
      case u: False
      with False "2.prems"(4) cl obtain c0' dst0 cur0 c1' where
        s0: "select_subsets_implement g pa clip ma mi c0 (dst, cur) = Some (c0', dst0, cur0)"
        and s1: "select_subsets_implement g pa clip ma mi c1 (dst0, cur0) = Some (c1', dst', n)"
        and res: "t' = SubsetPrivate m (Some (c0', c1'))"
        by (auto split: option.splits)
      from "2.prems"(1,2) have i: "tree_inv c0" "tree_inv c1"
        and d: "distinct (ids_of c0)" "distinct (ids_of c1)" by simp_all
      note k0 = "2.IH"(1) [OF i(1) d(1) "2.prems"(3) s0]
      from select_okD(1,2) [OF k0] have "cur0 \<le> length dst0" by simp
      note k1 = "2.IH"(2) [OF i(2) d(2) this s1]
      have "m = m \<or> m = ready_sizes_from_children m c0' c1'" by simp
      from node_combine [OF "2.prems"(1,2,3) k0 k1 this] show ?thesis by (simp add: res)
    qed
  qed
qed


lemma tree_inv_no_sub_path:
  "tree_inv t \<Longrightarrow> m_painter_data (members t) \<noteq> None \<Longrightarrow> m_sub_path (members t) = None"
  by (induction t rule: ids_of.induct) (auto split: if_splits)

lemma same_ids_trans: "same_ids a b \<Longrightarrow> same_ids b c \<Longrightarrow> same_ids a c"
  by (simp add: same_ids_def)

lemma reachable_step:
  assumes "tree_inv t'" "same_ids t t'" "same_ids r t" "ids_of t = [0..<number_subsets t]"
  shows "tree_inv t' \<and> same_ids r t' \<and> ids_of t' = [0..<number_subsets t']"
proof -
  from assms(2) have e: "ids_of t' = ids_of t" by (simp add: same_ids_def)
  have "ids_of t' = [0..<number_subsets t']"
    unfolding number_subsets_def e by (rule assms(4) [unfolded number_subsets_def])
  with assms(1) same_ids_trans [OF assms(3,2)] show ?thesis by simp
qed

lemma reachable_inv:
  assumes "reachable g pa split P t"
  shows "tree_inv t \<and> same_ids (create_root_subset split P) t
       \<and> ids_of t = [0..<number_subsets t]"
  using assms
proof (induction rule: reachable.induct)
  case created
  from create_root_subset_props [OF refl, of split P] show ?case
    by (simp add: same_ids_refl)
next
  case (after_subset t I t' p)
  from after_subset.IH have i: "tree_inv t" and s: "same_ids (create_root_subset split P) t"
    and e: "ids_of t = [0..<number_subsets t]" by blast+
  from subset_at_props [OF i after_subset.hyps(2)]
  have "tree_inv t'" "same_ids t t'" by simp_all
  then show ?case using s e by (rule reachable_step)
next
  case (after_select_subsets t clip ma mi dst t' dst' n)
  from after_select_subsets.IH have i: "tree_inv t" and s: "same_ids (create_root_subset split P) t"
    and e: "ids_of t = [0..<number_subsets t]" by blast+
  have d: "distinct (ids_of t)" by (subst e) simp
  from after_select_subsets.hyps(2)
  have "select_subsets_implement g pa clip ma mi t (dst, 0) = Some (t', dst', n)"
    by (simp add: select_subsets_def)
  from select_okD(5,6) [OF implement_ok [OF i d _ this, of g]]
  have "tree_inv t'" "same_ids t t'" by simp_all
  then show ?case using s e by (rule reachable_step)
qed





section \<open>The winding numbers of a subset with children\<close>

text \<open>
  Claim C8.  Let the tree be one that a FilledPath can hold: the tree its constructor
  makes, after any calls of \<open>subset\<close> and \<open>select_subsets\<close>.  When \<open>subset(I)\<close>, which
  calls \<open>make_ready\<close> on the subset with the id \<open>I\<close>, completes, then the subset has its
  data, and in it and in every subset below it that has children the winding numbers
  are strictly increasing (sorted, without duplicates) and are, as a set, the union of
  the winding numbers of the two children, and so the union of the winding numbers of
  the leaves below.
\<close>

theorem subset_winding_union:
  assumes "reachable g pa split P t" and "subset_at g pa I t = Some (t', p)"
  shows "m_ID (members p) = I \<and> m_painter_data (members p) \<noteq> None \<and> winding_union p
       \<and> set (m_winding_numbers (members p)) = set (leaf_windings p)"
proof -
  from reachable_inv [OF assms(1)] have "tree_inv t" by simp
  from subset_at_props [OF this assms(2)]
  have p: "tree_inv p" "m_painter_data (members p) \<noteq> None" "m_ID (members p) = I" by simp_all
  from realized_winding_union [OF p(1,2)] p(2,3) show ?thesis by simp
qed

section \<open>\<open>make_ready\<close> is idempotent\<close>

text \<open>
  Claim C9.  Let the tree be one that a FilledPath can hold, let \<open>I\<close> be below the
  number of subsets, and let the builders of the SubPaths that the tree still holds
  complete.  Then \<open>subset(I)\<close> completes; the subset it returns has its attribute data
  and its fuzz data and no SubPath any more; a further call of \<open>make_ready\<close> on this
  subset returns it as it is; and a second call of \<open>subset(I)\<close> leaves the tree as the
  first call left it and returns the same subset.
\<close>

theorem subset_idempotent:
  assumes "reachable g pa split P t" and "I < number_subsets t" and "builders_complete g t"
  shows "\<exists>t' p. subset_at g pa I t = Some (t', p)
           \<and> m_ID (members p) = I
           \<and> m_painter_data (members p) \<noteq> None \<and> m_fuzz_painter_data (members p) \<noteq> None
           \<and> m_sub_path (members p) = None
           \<and> make_ready g pa p = Some p
           \<and> subset_at g pa I t' = Some (t', p)"
proof -
  from reachable_inv [OF assms(1)] have i: "tree_inv t" and e: "ids_of t = [0..<number_subsets t]"
    by simp_all
  from assms(2) have "I \<in> set [0..<number_subsets t]" by simp
  then have "I \<in> set (ids_of t)" by (subst e)
  from subset_at_total [OF this i assms(3)] obtain t' p where
    s: "subset_at g pa I t = Some (t', p)" by blast
  from subset_at_props [OF i s]
  have p: "tree_inv p" "m_painter_data (members p) \<noteq> None" "m_ID (members p) = I" by simp_all
  have "make_ready g pa p = Some p" using p(2) by (cases p) auto
  with s p tree_inv_realized [OF p(1,2)] tree_inv_no_sub_path [OF p(1,2)] subset_at_again [OF s]
  show ?thesis by blast
qed

section \<open>The subsets that \<open>select_subsets\<close> writes\<close>


section \<open>A tree of three subsets, evaluated\<close>

lemma example_tree_eq:
  "example_tree = SubsetPrivate example_root (Some (first_leaf, second_leaf))"
proof -
  have r: "recursion_depth = Suc (Suc 10)" by (simp add: recursion_depth_def)
  have n: "m_num_points wide_path = 65" "m_num_points square_path = 4"
    by (simp_all add: wide_path_def square_path_def)
  show ?thesis
    unfolding example_tree_def create_root_subset_def r new_SubsetPrivate.simps halves_def
      prod.case Let_def n points_per_subset_def example_root_def first_leaf_def second_leaf_def
    by (simp add: numeral_2_eq_2)
qed

lemma new_builder_square:
  "new_builder silent_glu square_path = Some (builder_finish 0 square_tesser)"
  by (simp add: new_builder_eq builder_tesser_silent builder_winding_offset_silent)

lemma builder_finish_square:
  "builder_hoard (builder_finish 0 square_tesser)
     = [(0, new_WindingComponentData\<lparr>m_triangles := [4, 5, 6, 4, 6, 7]\<rparr>)]"
  "length (m_pts (builder_points (builder_finish 0 square_tesser))) = 8"
  by (simp_all add: builder_finish_def square_tesser_def square_hoard_def fetch_corner_def Let_def
      box_dim_def log2_box_dim_def)

lemma fill_indices_square:
  "fill_indices [(0, new_WindingComponentData\<lparr>m_triangles := [4, 5, 6, 4, 6, 7]\<rparr>)] [] []
     = Some ([4, 5, 6, 4, 6, 7], [(0, (0, 6))], 0, 0)"
  by (simp add: fill_indices_def fill_at_def resize_def Let_def)

lemma make_ready_from_sub_path_square:
  "make_ready_from_sub_path silent_glu list_painter square_path m =
     Some (m\<lparr>m_sizes_ready := True, m_largest_index_block := 6, m_num_attributes := 8,
             m_winding_numbers := m_winding_numbers m @ [0],
             m_painter_data := Some [4, 5, 6, 4, 6, 7], m_fuzz_painter_data := Some [],
             m_aa_largest_attribute_block := 0, m_aa_largest_index_block := 0,
             m_sub_path := None\<rparr>)"
  unfolding make_ready_from_sub_path_def new_builder_square option.case builder_finish_square
    fill_indices_square prod.case Let_def
  by (simp add: list_painter_def builder_finish_square)

lemma realize_square:
  "make_ready_from_sub_path silent_glu list_painter square_path (new_members n square_path)
     = Some (ready_members n)"
  unfolding make_ready_from_sub_path_square
  by (simp add: new_members_def ready_members_def)

lemma new_members_fields:
  "m_ID (new_members n Q) = n" "m_painter_data (new_members n Q) = None"
  "m_sub_path (new_members n Q) = Some Q" "m_sizes_ready (new_members n Q) = False"
  by (simp_all add: new_members_def)

lemma make_ready_unready_leaf:
  "make_ready silent_glu list_painter (SubsetPrivate (new_members n square_path) None)
     = Some (SubsetPrivate (ready_members n) None)"
  by (simp add: new_members_fields realize_square)

lemma make_ready_leaves:
  "make_ready silent_glu list_painter first_leaf = Some first_ready"
  "make_ready silent_glu list_painter second_leaf = Some second_ready"
  unfolding first_leaf_def second_leaf_def first_ready_def second_ready_def
  by (rule make_ready_unready_leaf)+

lemma example_root_fields:
  "m_ID example_root = 0" "m_painter_data example_root = None" "m_sub_path example_root = None"
  "m_sizes_ready example_root = False"
  by (simp_all add: example_root_def new_members_def)

lemma ready_members_fields:
  "m_ID (ready_members n) = n" "m_painter_data (ready_members n) = Some [4, 5, 6, 4, 6, 7]"
  "m_fuzz_painter_data (ready_members n) = Some []" "m_winding_numbers (ready_members n) = [0]"
  "m_sizes_ready (ready_members n)" "m_num_attributes (ready_members n) = 8"
  "m_largest_index_block (ready_members n) = 6"
  "m_aa_largest_attribute_block (ready_members n) = 0"
  "m_aa_largest_index_block (ready_members n) = 0"
  by (simp_all add: ready_members_def new_members_def)

lemma merge_example:
  "merge_children list_painter example_root first_ready second_ready = Some ready_root"
proof -
  have w: "merge_winding_lists [0] [0] = [0]" by (simp add: merge_winding_lists_def)
  show ?thesis
    unfolding merge_children_def first_ready_def second_ready_def SubsetPrivate.sel
      ready_members_fields prod.case option.case Let_def w ready_root_def
    by (simp add: list_painter_def example_root_def new_members_def)
qed

lemma make_ready_example:
  "make_ready silent_glu list_painter example_tree = Some ready_tree"
  unfolding example_tree_eq ready_tree_def make_ready.simps example_root_fields
  by (simp add: make_ready_leaves merge_example)

lemma subset_at_example:
  "subset_at silent_glu list_painter 0 example_tree = Some (ready_tree, ready_tree)"
  unfolding example_tree_eq subset_at.simps example_root_fields
  using make_ready_example [unfolded example_tree_eq] by simp

lemma leaf_ids: "ids_of first_leaf = [1]" "ids_of second_leaf = [2]"
  "ancestry first_leaf = []" "ancestry second_leaf = []"
  "subtree_ids first_leaf a = (if a = 1 then [1] else [])"
  "subtree_ids second_leaf a = (if a = 2 then [2] else [])"
  by (auto simp: first_leaf_def second_leaf_def new_members_def)

lemma example_ids: "ids_of example_tree = [0, 1, 2]" "number_subsets example_tree = 3"
  "ancestry example_tree = [(0, 1), (0, 2)]"
  "subtree_ids example_tree 1 = [1]" "subtree_ids example_tree 2 = [2]"
  unfolding example_tree_eq number_subsets_def
  by (simp_all add: leaf_ids example_root_fields)

lemma example_builders: "builders_complete silent_glu example_tree"
  unfolding example_tree_eq
  by (simp add: first_leaf_def second_leaf_def new_members_def new_builder_square
      example_root_fields)





theorem subset_winding_union_witness:
  "subset_at silent_glu list_painter 0 example_tree = Some (ready_tree, ready_tree)
   \<and> winding_union ready_tree
   \<and> m_winding_numbers (members ready_tree) = [0]
   \<and> leaf_windings ready_tree = [0, 0]"
proof -
  have r: "reachable silent_glu list_painter halves wide_path example_tree"
    unfolding example_tree_def by (rule reachable.created)
  from subset_winding_union [OF r subset_at_example] have "winding_union ready_tree" by simp
  moreover have "m_winding_numbers (members ready_tree) = [0]" "leaf_windings ready_tree = [0, 0]"
    by (simp_all add: ready_tree_def ready_root_def first_ready_def second_ready_def
        ready_members_fields)
  ultimately show ?thesis using subset_at_example by simp
qed

theorem subset_idempotent_witness:
  "number_subsets example_tree = 3
   \<and> subset_at silent_glu list_painter 0 example_tree = Some (ready_tree, ready_tree)
   \<and> m_painter_data (members ready_tree) = Some [4, 5, 6, 4, 6, 7, 4, 5, 6, 4, 6, 7]
   \<and> make_ready silent_glu list_painter ready_tree = Some ready_tree
   \<and> subset_at silent_glu list_painter 0 ready_tree = Some (ready_tree, ready_tree)"
proof -
  have r: "reachable silent_glu list_painter halves wide_path example_tree"
    unfolding example_tree_def by (rule reachable.created)
  have i: "0 < number_subsets example_tree" by (simp add: example_ids)
  from subset_idempotent [OF r i example_builders] obtain t' p where
    s: "subset_at silent_glu list_painter 0 example_tree = Some (t', p)"
    and m: "make_ready silent_glu list_painter p = Some p"
    and a: "subset_at silent_glu list_painter 0 t' = Some (t', p)"
    by (elim exE conjE)
  from s subset_at_example have e: "t' = ready_tree" "p = ready_tree" by simp_all
  have "m_painter_data (members ready_tree) = Some [4, 5, 6, 4, 6, 7, 4, 5, 6, 4, 6, 7]"
    by (simp add: ready_tree_def ready_root_def)
  with m a subset_at_example show ?thesis unfolding e by (simp add: example_ids)
qed


end
